theory Spec2Isabelle
  imports Complex_Main
begin

section \<open>Data model (simulation/types.ts)\<close>

text \<open>
  JavaScript numbers are modelled as exact reals: every statement below is about the
  arithmetic the code writes down, not about IEEE rounding.
\<close>

record Position =
  pos_x :: real
  pos_y :: real

datatype Direction = DirLeft | DirRight | DirUp | DirDown

datatype DeviceState = Running | Stopped | Faulted

datatype SimulationStatus = SimRunning | SimPaused | SimStopped

text \<open>
  The \<open>type\<close> tag of a device together with the fields of its variant
  (\<open>Conveyor\<close>, \<open>Source\<close>, \<open>Sink\<close>, \<open>Junction\<close>).
\<close>

datatype DeviceKind =
    Conveyor (speed: real) (direction: Direction)
  | Source (generationRate: real)
  | Sink
  | Junction (outputDirection: Direction)

record Device =
  dev_id :: string
  kind :: DeviceKind
  position :: Position
  width :: real
  height :: real
  state :: DeviceState
  faultReason :: "string option"

record Connection =
  fromDeviceId :: string
  toDeviceId :: string

record EditorLayout =
  devices :: "Device list"
  connections :: "Connection list"

record Token =
  tok_id :: string
  tok_position :: Position
  currentDeviceId :: string
  progress :: real
  color :: string

text \<open>
  A graph node refers to its device object; the engine's layout array holds the same
  object.  The reference is the index of the device in \<open>layout.devices\<close>, so a
  mutation through the node is a mutation of the layout's device.
\<close>

record GraphNode =
  node_deviceId :: string
  device_ref :: nat
  inputs :: "string list"
  outputs :: "string list"

text \<open>The \<open>Map<string, GraphNode>\<close> of the graph, in insertion order.\<close>

type_synonym ConnectivityGraph = "(string \<times> GraphNode) list"

record PathSegment =
  seg_deviceId :: string
  entryPoint :: Position
  exitPoint :: Position
  seg_length :: real

record SimulationConfig =
  timeScale :: real
  tokenColor :: string
  faultColor :: string
  runningColor :: string
  stoppedColor :: string

datatype SimulationEvent =
    StatusChange SimulationStatus SimulationStatus
  | TokenCreated Token
  | TokenMoved Token string string
  | TokenRemoved Token
  | DeviceStateChange string DeviceState DeviceState "string option"
  | TickEvent real real nat

section \<open>Path geometry (simulation/path.ts)\<close>

definition getDeviceEntryPoint :: "Device \<Rightarrow> Position" where
  "getDeviceEntryPoint device =
     (let x = pos_x (position device); y = pos_y (position device);
          w = width device; h = height device
      in case kind device of
           Conveyor s DirRight \<Rightarrow> \<lparr>pos_x = x, pos_y = y + h / 2\<rparr>
         | Conveyor s DirLeft \<Rightarrow> \<lparr>pos_x = x + w, pos_y = y + h / 2\<rparr>
         | Conveyor s DirDown \<Rightarrow> \<lparr>pos_x = x + w / 2, pos_y = y\<rparr>
         | Conveyor s DirUp \<Rightarrow> \<lparr>pos_x = x + w / 2, pos_y = y + h\<rparr>
         | _ \<Rightarrow> \<lparr>pos_x = x, pos_y = y + h / 2\<rparr>)"

definition getDeviceExitPoint :: "Device \<Rightarrow> Position" where
  "getDeviceExitPoint device =
     (let x = pos_x (position device); y = pos_y (position device);
          w = width device; h = height device
      in case kind device of
           Conveyor s DirRight \<Rightarrow> \<lparr>pos_x = x + w, pos_y = y + h / 2\<rparr>
         | Conveyor s DirLeft \<Rightarrow> \<lparr>pos_x = x, pos_y = y + h / 2\<rparr>
         | Conveyor s DirDown \<Rightarrow> \<lparr>pos_x = x + w / 2, pos_y = y + h\<rparr>
         | Conveyor s DirUp \<Rightarrow> \<lparr>pos_x = x + w / 2, pos_y = y\<rparr>
         | _ \<Rightarrow> \<lparr>pos_x = x + w, pos_y = y + h / 2\<rparr>)"

definition calculateDistance :: "Position \<Rightarrow> Position \<Rightarrow> real" where
  "calculateDistance from to =
     (let dx = pos_x to - pos_x from; dy = pos_y to - pos_y from
      in sqrt (dx * dx + dy * dy))"

definition createPathSegment :: "Device \<Rightarrow> PathSegment" where
  "createPathSegment device =
     (let entry = getDeviceEntryPoint device; exit = getDeviceExitPoint device
      in \<lparr>seg_deviceId = dev_id device, entryPoint = entry, exitPoint = exit,
          seg_length = calculateDistance entry exit\<rparr>)"

definition getPositionOnSegment :: "PathSegment \<Rightarrow> real \<Rightarrow> Position" where
  "getPositionOnSegment segment p =
     (let clampedProgress = max 0 (min 1 p)
      in \<lparr>pos_x = pos_x (entryPoint segment)
                 + (pos_x (exitPoint segment) - pos_x (entryPoint segment)) * clampedProgress,
          pos_y = pos_y (entryPoint segment)
                 + (pos_y (exitPoint segment) - pos_y (entryPoint segment)) * clampedProgress\<rparr>)"

definition getEffectiveSpeed :: "Device \<Rightarrow> real" where
  "getEffectiveSpeed device =
     (if state device \<noteq> Running then 0
      else case kind device of Conveyor s d \<Rightarrow> s | _ \<Rightarrow> 100)"

definition calculateProgressDelta :: "Device \<Rightarrow> PathSegment \<Rightarrow> real \<Rightarrow> real \<Rightarrow> real" where
  "calculateProgressDelta device segment deltaTimeSeconds scale =
     (let spd = getEffectiveSpeed device
      in if spd = 0 \<or> seg_length segment = 0 then 0
         else (spd * deltaTimeSeconds * scale) / seg_length segment)"

section \<open>Connectivity graph (simulation/graph.ts)\<close>

text \<open>\<open>Map.set\<close>: an existing key keeps its place, a new key goes to the end.\<close>

fun map_set :: "('k \<times> 'v) list \<Rightarrow> 'k \<Rightarrow> 'v \<Rightarrow> ('k \<times> 'v) list" where
  "map_set [] k v = [(k, v)]"
| "map_set ((k', v') # m) k v = (if k' = k then (k, v) # m else (k', v') # map_set m k v)"

definition getNode :: "ConnectivityGraph \<Rightarrow> string \<Rightarrow> GraphNode option" where
  "getNode g deviceId = map_of g deviceId"

definition getConnectedOutputs :: "ConnectivityGraph \<Rightarrow> string \<Rightarrow> string list" where
  "getConnectedOutputs g deviceId =
     (case map_of g deviceId of None \<Rightarrow> [] | Some n \<Rightarrow> outputs n)"

definition getConnectedInputs :: "ConnectivityGraph \<Rightarrow> string \<Rightarrow> string list" where
  "getConnectedInputs g deviceId =
     (case map_of g deviceId of None \<Rightarrow> [] | Some n \<Rightarrow> inputs n)"

text \<open>First loop of \<open>buildConnectivityGraph\<close>: one fresh node per device.\<close>

fun initNodes :: "ConnectivityGraph \<Rightarrow> nat \<Rightarrow> Device list \<Rightarrow> ConnectivityGraph" where
  "initNodes g i [] = g"
| "initNodes g i (d # ds) =
     initNodes (map_set g (dev_id d)
        \<lparr>node_deviceId = dev_id d, device_ref = i, inputs = [], outputs = []\<rparr>) (Suc i) ds"

text \<open>
  Body of the second loop, for one connection.  \<open>fromNode\<close> and \<open>toNode\<close> are
  references into the map (the same node for a self-connection), so each of the two
  pushes reads the node as the map holds it at that moment.
\<close>

definition addOutput :: "ConnectivityGraph \<Rightarrow> string \<Rightarrow> string \<Rightarrow> ConnectivityGraph" where
  "addOutput g fromId toId =
     (case map_of g fromId of
        None \<Rightarrow> g
      | Some fromNode \<Rightarrow>
          if toId \<in> set (outputs fromNode) then g
          else map_set g fromId (fromNode\<lparr>outputs := outputs fromNode @ [toId]\<rparr>))"

definition addInput :: "ConnectivityGraph \<Rightarrow> string \<Rightarrow> string \<Rightarrow> ConnectivityGraph" where
  "addInput g toId fromId =
     (case map_of g toId of
        None \<Rightarrow> g
      | Some toNode \<Rightarrow>
          if fromId \<in> set (inputs toNode) then g
          else map_set g toId (toNode\<lparr>inputs := inputs toNode @ [fromId]\<rparr>))"

definition addConnection :: "ConnectivityGraph \<Rightarrow> Connection \<Rightarrow> ConnectivityGraph" where
  "addConnection g c =
     (if map_of g (fromDeviceId c) \<noteq> None \<and> map_of g (toDeviceId c) \<noteq> None
      then addInput (addOutput g (fromDeviceId c) (toDeviceId c)) (toDeviceId c) (fromDeviceId c)
      else g)"

definition buildConnectivityGraph :: "EditorLayout \<Rightarrow> ConnectivityGraph" where
  "buildConnectivityGraph layout =
     foldl addConnection (initNodes [] 0 (devices layout)) (connections layout)"

subsection \<open>findPath\<close>

text \<open>
  The \<open>for\<close> loop of \<open>findPath\<close> over the outputs of the current node: \<open>Inl\<close> is the
  early return of the path found, \<open>Inr\<close> the visited set and the queue after the loop.
\<close>

fun scanOutputs ::
  "string \<Rightarrow> string list \<Rightarrow> string list \<Rightarrow> string set \<times> (string \<times> string list) list \<Rightarrow>
   string list + string set \<times> (string \<times> string list) list" where
  "scanOutputs toId path [] (visited, queue) = Inr (visited, queue)"
| "scanOutputs toId path (outputId # outs) (visited, queue) =
     (if outputId = toId then Inl (path @ [toId])
      else if outputId \<notin> visited
        then scanOutputs toId path outs (insert outputId visited, queue @ [(outputId, path @ [outputId])])
        else scanOutputs toId path outs (visited, queue))"

text \<open>All ids that occur as an output of some node.\<close>

definition allOutputs :: "ConnectivityGraph \<Rightarrow> string set" where
  "allOutputs g = (\<Union>kn \<in> set g. set (outputs (snd kn)))"

text \<open>The loop does not increase the number of unvisited outputs plus the queue length.\<close>

lemma scanOutputs_measure:
  "scanOutputs toId path outs (visited, queue) = Inr (visited', queue') \<Longrightarrow>
   finite U \<Longrightarrow> set outs \<subseteq> U \<Longrightarrow>
   card (U - visited') + length queue' \<le> card (U - visited) + length queue"
proof (induction toId path outs "(visited, queue)" arbitrary: visited queue
    rule: scanOutputs.induct)
  case (1 toId path visited queue)
  then show ?case by simp
next
  case (2 toId path outputId outs visited queue)
  show ?case
  proof (cases "outputId \<notin> visited")
    case True
    with "2.prems" have r: "scanOutputs toId path outs
        (insert outputId visited, queue @ [(outputId, path @ [outputId])]) = Inr (visited', queue')"
      by (simp split: if_splits)
    have ne: "outputId \<noteq> toId" using "2.prems"(1) by (auto split: if_splits)
    have "card (U - visited') + length queue'
        \<le> card (U - insert outputId visited) + length (queue @ [(outputId, path @ [outputId])])"
      using "2.hyps"(1) [OF ne True r] "2.prems"(2,3) by simp
    moreover have "card (U - insert outputId visited) < card (U - visited)"
      using True "2.prems"(2,3) by (intro psubset_card_mono) auto
    ultimately show ?thesis by simp
  next
    case False
    with "2.prems" have r: "scanOutputs toId path outs (visited, queue) = Inr (visited', queue')"
      by (simp split: if_splits)
    have ne: "outputId \<noteq> toId" using "2.prems"(1) by (auto split: if_splits)
    show ?thesis using "2.hyps"(2) [OF ne False r] "2.prems"(2,3) by simp
  qed
qed

text \<open>The \<open>while\<close> loop of \<open>findPath\<close>; a queue entry is a node id with the path to it.\<close>

function bfsLoop ::
  "ConnectivityGraph \<Rightarrow> string \<Rightarrow> string set \<Rightarrow> (string \<times> string list) list \<Rightarrow>
   string list option" where
  "bfsLoop nodes toId visited [] = None"
| "bfsLoop nodes toId visited ((nodeId, path) # queue) =
     (case map_of nodes nodeId of
        None \<Rightarrow> bfsLoop nodes toId visited queue
      | Some currentNode \<Rightarrow>
          (case scanOutputs toId path (outputs currentNode) (visited, queue) of
             Inl found \<Rightarrow> Some found
           | Inr (visited', queue') \<Rightarrow> bfsLoop nodes toId visited' queue'))"
  by pat_completeness auto
termination
proof (relation "measure (\<lambda>(nodes, toId, visited, queue).
    card (allOutputs nodes - visited) + length queue)", goal_cases)
  case 1
  show ?case by simp
next
  case (2 nodes toId visited nodeId path queue)
  show ?case by simp
next
  case (3 nodes toId visited nodeId path queue currentNode x visited' queue')
  have "(nodeId, currentNode) \<in> set nodes" using 3(1) by (rule map_of_SomeD)
  then have sub: "set (outputs currentNode) \<subseteq> allOutputs nodes"
    by (force simp: allOutputs_def)
  have fin: "finite (allOutputs nodes)" by (simp add: allOutputs_def)
  from 3(2,3) have "scanOutputs toId path (outputs currentNode) (visited, queue)
      = Inr (visited', queue')" by simp
  from scanOutputs_measure [OF this fin sub] show ?case by simp
qed

definition findPath :: "ConnectivityGraph \<Rightarrow> string \<Rightarrow> string \<Rightarrow> string list option" where
  "findPath nodes fromId toId =
     (if fromId = toId then Some [fromId]
      else bfsLoop nodes toId {fromId} [(fromId, [fromId])])"

definition getPath :: "ConnectivityGraph \<Rightarrow> string \<Rightarrow> string \<Rightarrow> string list option" where
  "getPath g fromId toId = findPath g fromId toId"

subsection \<open>hasCycle and topologicalSort\<close>

text \<open>
  \<open>hasCycle\<close>: the recursive \<open>dfs\<close> and its \<open>for\<close> loop over the outputs, on the
  visited set and the recursion stack.  The result is whether a cycle was found, with the
  two sets as the call leaves them.  \<open>fuel\<close> bounds the depth of the recursion; running
  out of it is \<open>None\<close>.
\<close>

fun dfs ::
    "nat \<Rightarrow> ConnectivityGraph \<Rightarrow> string set \<times> string set \<Rightarrow> string \<Rightarrow>
     (bool \<times> string set \<times> string set) option"
  and dfsOutputs ::
    "nat \<Rightarrow> ConnectivityGraph \<Rightarrow> string set \<times> string set \<Rightarrow> string list \<Rightarrow>
     (bool \<times> string set \<times> string set) option" where
  "dfs 0 g vs nodeId = None"
| "dfs (Suc fuel) g (visited, stack) nodeId =
     (case dfsOutputs fuel g (insert nodeId visited, insert nodeId stack)
             (getConnectedOutputs g nodeId) of
        None \<Rightarrow> None
      | Some (True, vs') \<Rightarrow> Some (True, vs')
      | Some (False, (visited', stack')) \<Rightarrow> Some (False, (visited', stack' - {nodeId})))"
| "dfsOutputs fuel g vs [] = Some (False, vs)"
| "dfsOutputs fuel g (visited, stack) (outputId # outs) =
     (if outputId \<notin> visited then
        (case dfs fuel g (visited, stack) outputId of
           None \<Rightarrow> None
         | Some (True, vs') \<Rightarrow> Some (True, vs')
         | Some (False, vs') \<Rightarrow> dfsOutputs fuel g vs' outs)
      else if outputId \<in> stack then Some (True, (visited, stack))
      else dfsOutputs fuel g (visited, stack) outs)"

text \<open>The loop of \<open>hasCycle\<close> over the keys of the node map.\<close>

fun hasCycleLoop ::
  "nat \<Rightarrow> ConnectivityGraph \<Rightarrow> string set \<times> string set \<Rightarrow> string list \<Rightarrow> bool option" where
  "hasCycleLoop fuel g vs [] = Some False"
| "hasCycleLoop fuel g (visited, stack) (nodeId # rest) =
     (if nodeId \<notin> visited then
        (case dfs fuel g (visited, stack) nodeId of
           None \<Rightarrow> None
         | Some (True, vs') \<Rightarrow> Some True
         | Some (False, vs') \<Rightarrow> hasCycleLoop fuel g vs' rest)
      else hasCycleLoop fuel g (visited, stack) rest)"

text \<open>
  The recursion is at most as deep as there are ids in the graph: its keys and the ids
  in its output lists.
\<close>

definition dfsFuel :: "ConnectivityGraph \<Rightarrow> nat" where
  "dfsFuel g = length g + length (concat (map (\<lambda>kn. outputs (snd kn)) g))"

definition hasCycle :: "ConnectivityGraph \<Rightarrow> bool option" where
  "hasCycle g = hasCycleLoop (dfsFuel g) g ({}, {}) (map fst g)"

text \<open>
  \<open>topologicalSort\<close>: the \<open>for\<close> loop over the outputs of the node taken from the
  queue, on the in-degree map and the queue.
\<close>

fun relax ::
  "string list \<Rightarrow> (string \<rightharpoonup> int) \<times> string list \<Rightarrow> (string \<rightharpoonup> int) \<times> string list" where
  "relax [] (inDegree, queue) = (inDegree, queue)"
| "relax (outputId # outs) (inDegree, queue) =
     (let newDegree = (case inDegree outputId of None \<Rightarrow> 0 | Some d \<Rightarrow> d) - 1;
          inDegree' = inDegree(outputId \<mapsto> newDegree)
      in relax outs (inDegree', if newDegree = 0 then queue @ [outputId] else queue))"

definition positiveDegree :: "ConnectivityGraph \<Rightarrow> (string \<rightharpoonup> int) \<Rightarrow> string set" where
  "positiveDegree g inDegree = {k \<in> allOutputs g. \<exists>d. inDegree k = Some d \<and> 0 < d}"

lemma relax_measure:
  "set outs \<subseteq> allOutputs g \<Longrightarrow> relax outs (inDegree, queue) = (inDegree', queue') \<Longrightarrow>
   card (positiveDegree g inDegree') + length queue'
     \<le> card (positiveDegree g inDegree) + length queue"
proof (induction outs arbitrary: inDegree queue)
  case Nil
  then show ?case by simp
next
  case (Cons x outs)
  define nd where "nd = (case inDegree x of None \<Rightarrow> 0 | Some d \<Rightarrow> d) - 1"
  define q1 where "q1 = (if nd = 0 then queue @ [x] else queue)"
  have fin: "finite (allOutputs g)" by (simp add: allOutputs_def)
  have r: "relax outs (inDegree(x \<mapsto> nd), q1) = (inDegree', queue')"
    using Cons.prems(2) by (simp add: nd_def q1_def Let_def)
  have ih: "card (positiveDegree g inDegree') + length queue'
     \<le> card (positiveDegree g (inDegree(x \<mapsto> nd))) + length q1"
    using Cons.prems(1) by (intro Cons.IH [OF _ r]) simp
  have xU: "x \<in> allOutputs g" using Cons.prems(1) by simp
  have "card (positiveDegree g (inDegree(x \<mapsto> nd))) + length q1
      \<le> card (positiveDegree g inDegree) + length queue"
  proof (cases "nd = 0")
    case True
    then have pos: "x \<in> positiveDegree g inDegree"
      using xU by (auto simp: positiveDegree_def nd_def split: option.splits)
    have "positiveDegree g (inDegree(x \<mapsto> nd)) = positiveDegree g inDegree - {x}"
      using True by (auto simp: positiveDegree_def)
    moreover have "finite (positiveDegree g inDegree)"
      using fin by (simp add: positiveDegree_def)
    ultimately have "card (positiveDegree g (inDegree(x \<mapsto> nd)))
        = card (positiveDegree g inDegree) - 1"
      using pos by simp
    moreover have "0 < card (positiveDegree g inDegree)"
      using pos \<open>finite (positiveDegree g inDegree)\<close> by (auto simp: card_gt_0_iff)
    ultimately show ?thesis using True by (simp add: q1_def)
  next
    case False
    have "positiveDegree g (inDegree(x \<mapsto> nd)) \<subseteq> positiveDegree g inDegree"
      by (auto simp: positiveDegree_def nd_def split: option.splits if_splits)
    moreover have "finite (positiveDegree g inDegree)"
      using fin by (simp add: positiveDegree_def)
    ultimately have "card (positiveDegree g (inDegree(x \<mapsto> nd)))
        \<le> card (positiveDegree g inDegree)"
      by (rule card_mono [rotated])
    then show ?thesis using False by (simp add: q1_def)
  qed
  with ih show ?case by simp
qed

lemma getConnectedOutputs_allOutputs: "set (getConnectedOutputs g k) \<subseteq> allOutputs g"
proof (cases "map_of g k")
  case None
  then show ?thesis by (simp add: getConnectedOutputs_def)
next
  case (Some n)
  then have "(k, n) \<in> set g" by (rule map_of_SomeD)
  then show ?thesis using Some by (force simp: getConnectedOutputs_def allOutputs_def)
qed

lemma relax_decreases:
  "relax (getConnectedOutputs g current) (inDegree, queue) = (inDegree', queue') \<Longrightarrow>
   card (positiveDegree g inDegree') + length queue'
     < card (positiveDegree g inDegree) + length (current # queue)"
  using relax_measure [OF getConnectedOutputs_allOutputs, of g current inDegree queue inDegree' queue']
  by simp

text \<open>The \<open>while\<close> loop of \<open>topologicalSort\<close>.\<close>

function kahnLoop ::
  "ConnectivityGraph \<Rightarrow> (string \<rightharpoonup> int) \<Rightarrow> string list \<Rightarrow> string list \<Rightarrow> string list" where
  "kahnLoop g inDegree [] result = result"
| "kahnLoop g inDegree (current # queue) result =
     (case relax (getConnectedOutputs g current) (inDegree, queue) of
        (inDegree', queue') \<Rightarrow> kahnLoop g inDegree' queue' (result @ [current]))"
  by pat_completeness auto
termination
proof (relation "measure (\<lambda>(g, inDegree, queue, result).
    card (positiveDegree g inDegree) + length queue)", goal_cases)
  case 1
  show ?case by simp
next
  case 2
  then show ?case using relax_decreases by fastforce
qed

definition initialDegrees :: "ConnectivityGraph \<Rightarrow> (string \<rightharpoonup> int)" where
  "initialDegrees g =
     foldl (\<lambda>m nodeId. m(nodeId \<mapsto> int (length (getConnectedInputs g nodeId)))) Map.empty
       (map fst g)"

definition topologicalSort :: "ConnectivityGraph \<Rightarrow> string list option" where
  "topologicalSort g =
     (let inDegree = initialDegrees g;
          queue = filter (\<lambda>nodeId. inDegree nodeId = Some 0) (map fst g);
          result = kahnLoop g inDegree queue []
      in if length result \<noteq> length g then None else Some result)"

section \<open>Tokens (simulation/tokens.ts)\<close>

text \<open>Decimal rendering of the counter, as the template literal does.\<close>

fun string_of_nat :: "nat \<Rightarrow> string" where
  "string_of_nat n =
     (if n < 10 then [''0123456789'' ! n]
      else string_of_nat (n div 10) @ [''0123456789'' ! (n mod 10)])"

declare string_of_nat.simps [simp del]

text \<open>
  \<open>generateTokenId\<close> pre-increments the module-level counter; the model returns the id
  and the new counter.
\<close>

definition generateTokenId :: "nat \<Rightarrow> string \<times> nat" where
  "generateTokenId tokenIdCounter =
     (''token-'' @ string_of_nat (Suc tokenIdCounter), Suc tokenIdCounter)"

definition resetTokenIdCounter :: "nat \<Rightarrow> nat" where
  "resetTokenIdCounter tokenIdCounter = 0"

definition createToken :: "string \<Rightarrow> Device \<Rightarrow> string \<Rightarrow> nat \<Rightarrow> Token \<times> nat" where
  "createToken deviceId device col tokenIdCounter =
     (let segment = createPathSegment device;
          (new_id, counter') = generateTokenId tokenIdCounter
      in (\<lparr>tok_id = new_id, tok_position = entryPoint segment,
           currentDeviceId = deviceId, progress = 0, color = col\<rparr>, counter'))"

definition advanceToken :: "Token \<Rightarrow> Device \<Rightarrow> real \<Rightarrow> real \<Rightarrow> Token \<times> bool" where
  "advanceToken token device deltaTimeSeconds scale =
     (let segment = createPathSegment device;
          progressDelta = calculateProgressDelta device segment deltaTimeSeconds scale;
          newProgress = progress token + progressDelta;
          completed = (newProgress \<ge> 1);
          clampedProgress = min newProgress 1;
          newPosition = getPositionOnSegment segment clampedProgress
      in (token\<lparr>progress := clampedProgress, tok_position := newPosition\<rparr>, completed))"

definition transferToken :: "Token \<Rightarrow> string \<Rightarrow> Device \<Rightarrow> Token" where
  "transferToken token nextDeviceId nextDevice =
     (let segment = createPathSegment nextDevice
      in token\<lparr>currentDeviceId := nextDeviceId, progress := 0,
               tok_position := entryPoint segment\<rparr>)"

definition getNextDeviceId :: "Token \<Rightarrow> ConnectivityGraph \<Rightarrow> string option" where
  "getNextDeviceId token g =
     (case getConnectedOutputs g (currentDeviceId token) of
        [] \<Rightarrow> None
      | out # _ \<Rightarrow> Some out)"

text \<open>
  \<open>shouldRemoveToken\<close> reads the type of the node's device, so it takes the device
  array the references point into.
\<close>

definition shouldRemoveToken :: "Token \<Rightarrow> ConnectivityGraph \<Rightarrow> Device list \<Rightarrow> bool" where
  "shouldRemoveToken token g devs =
     (case getNode g (currentDeviceId token) of
        None \<Rightarrow> True
      | Some node \<Rightarrow>
          if progress token \<ge> 1 \<and> outputs node = [] then True
          else if kind (devs ! device_ref node) = Sink \<and> progress token \<ge> 1 then True
          else False)"

section \<open>Simulation engine (simulation/engine.ts)\<close>

text \<open>
  The fields of the class, the module-level \<open>tokenIdCounter\<close> of tokens.ts that
  \<open>reset\<close> writes, the count of frame requests made to the host (the handle that
  \<open>requestAnimationFrame\<close> returns), and the log of the events passed to \<open>emit\<close>,
  in order.  The renderer reads the state and writes nothing back; it is not modelled.
\<close>

record SimulationEngine =
  layout :: EditorLayout
  graph :: ConnectivityGraph
  tokens :: "Token list"
  status :: SimulationStatus
  config :: SimulationConfig
  elapsedTime :: real
  lastFrameTime :: real
  animationFrameId :: "nat option"
  sourceTimers :: "string \<rightharpoonup> real"
  tokenIdCounter :: nat
  frameRequests :: nat
  emitted :: "SimulationEvent list"

definition DEFAULT_CONFIG :: SimulationConfig where
  "DEFAULT_CONFIG = \<lparr>timeScale = 1, tokenColor = ''#3b82f6'', faultColor = ''#ef4444'',
     runningColor = ''#22c55e'', stoppedColor = ''#6b7280''\<rparr>"

text \<open>The constructor; \<open>counter\<close> is the value of the module-level counter at that time.\<close>

definition newEngine :: "EditorLayout \<Rightarrow> SimulationConfig \<Rightarrow> nat \<Rightarrow> SimulationEngine" where
  "newEngine l cfg counter =
     \<lparr>layout = l, graph = buildConnectivityGraph l, tokens = [], status = SimStopped,
      config = cfg, elapsedTime = 0, lastFrameTime = 0, animationFrameId = None,
      sourceTimers = Map.empty, tokenIdCounter = counter, frameRequests = 0, emitted = []\<rparr>"

definition emit :: "SimulationEvent \<Rightarrow> SimulationEngine \<Rightarrow> SimulationEngine" where
  "emit ev e = e\<lparr>emitted := emitted e @ [ev]\<rparr>"

definition scheduleFrame :: "SimulationEngine \<Rightarrow> SimulationEngine" where
  "scheduleFrame e =
     e\<lparr>frameRequests := Suc (frameRequests e), animationFrameId := Some (Suc (frameRequests e))\<rparr>"

definition cancelFrame :: "SimulationEngine \<Rightarrow> SimulationEngine" where
  "cancelFrame e = (if animationFrameId e \<noteq> None then e\<lparr>animationFrameId := None\<rparr> else e)"

definition initializeSourceTimers :: "SimulationEngine \<Rightarrow> SimulationEngine" where
  "initializeSourceTimers e =
     e\<lparr>sourceTimers :=
         foldl (\<lambda>m d. case kind d of Source r \<Rightarrow> m(dev_id d \<mapsto> 0) | _ \<Rightarrow> m)
           Map.empty (devices (layout e))\<rparr>"

text \<open>\<open>now\<close> is the value of \<open>performance.now()\<close> at the call.\<close>

definition play :: "real \<Rightarrow> SimulationEngine \<Rightarrow> SimulationEngine" where
  "play now e =
     (if status e = SimRunning then e
      else let previousStatus = status e;
               e1 = e\<lparr>status := SimRunning, lastFrameTime := now\<rparr>;
               e2 = (if previousStatus = SimStopped then initializeSourceTimers e1 else e1);
               e3 = emit (StatusChange previousStatus (status e2)) e2
           in scheduleFrame e3)"

definition pause :: "SimulationEngine \<Rightarrow> SimulationEngine" where
  "pause e =
     (if status e \<noteq> SimRunning then e
      else let previousStatus = status e;
               e1 = cancelFrame (e\<lparr>status := SimPaused\<rparr>)
           in emit (StatusChange previousStatus (status e1)) e1)"

definition resetDeviceStates :: "Device list \<Rightarrow> Device list" where
  "resetDeviceStates ds = map (\<lambda>d. if state d = Faulted then d\<lparr>state := Stopped\<rparr> else d) ds"

definition reset :: "SimulationEngine \<Rightarrow> SimulationEngine" where
  "reset e =
     (let previousStatus = status e;
          e1 = cancelFrame (e\<lparr>status := SimStopped\<rparr>);
          e2 = e1\<lparr>emitted := emitted e1 @ map TokenRemoved (tokens e1)\<rparr>;
          e3 = e2\<lparr>tokens := [], elapsedTime := 0, lastFrameTime := 0,
                 sourceTimers := Map.empty,
                 tokenIdCounter := resetTokenIdCounter (tokenIdCounter e2)\<rparr>;
          e4 = e3\<lparr>layout := (layout e3)\<lparr>devices := resetDeviceStates (devices (layout e3))\<rparr>\<rparr>
      in emit (StatusChange previousStatus (status e4)) e4)"

definition setTimeScale :: "real \<Rightarrow> SimulationEngine \<Rightarrow> SimulationEngine" where
  "setTimeScale scale e = e\<lparr>config := (config e)\<lparr>timeScale := max (1 / 10) (min 10 scale)\<rparr>\<rparr>"

text \<open>The device object a node refers to, and an in-place mutation of it.\<close>

definition nodeDevice :: "SimulationEngine \<Rightarrow> GraphNode \<Rightarrow> Device" where
  "nodeDevice e node = devices (layout e) ! device_ref node"

definition mutateDevice :: "GraphNode \<Rightarrow> (Device \<Rightarrow> Device) \<Rightarrow> SimulationEngine \<Rightarrow> SimulationEngine" where
  "mutateDevice node f e =
     e\<lparr>layout := (layout e)\<lparr>devices :=
          (devices (layout e))[device_ref node := f (devices (layout e) ! device_ref node)]\<rparr>\<rparr>"

definition setDeviceState :: "string \<Rightarrow> DeviceState \<Rightarrow> SimulationEngine \<Rightarrow> SimulationEngine" where
  "setDeviceState deviceId st e =
     (case getNode (graph e) deviceId of
        None \<Rightarrow> e
      | Some node \<Rightarrow>
          let previousState = state (nodeDevice e node);
              e1 = mutateDevice node (\<lambda>d. d\<lparr>state := st\<rparr>) e
          in emit (DeviceStateChange deviceId previousState st None) e1)"

definition setDeviceFault :: "string \<Rightarrow> string \<Rightarrow> SimulationEngine \<Rightarrow> SimulationEngine" where
  "setDeviceFault deviceId reason e =
     (case getNode (graph e) deviceId of
        None \<Rightarrow> e
      | Some node \<Rightarrow>
          let previousState = state (nodeDevice e node);
              e1 = mutateDevice node (\<lambda>d. d\<lparr>state := Faulted, faultReason := Some reason\<rparr>) e
          in emit (DeviceStateChange deviceId previousState Faulted (Some reason)) e1)"

definition clearDeviceFault :: "string \<Rightarrow> SimulationEngine \<Rightarrow> SimulationEngine" where
  "clearDeviceFault deviceId e =
     (case getNode (graph e) deviceId of
        None \<Rightarrow> e
      | Some node \<Rightarrow>
          if state (nodeDevice e node) = Faulted then
            let e1 = mutateDevice node (\<lambda>d. d\<lparr>state := Stopped, faultReason := None\<rparr>) e
            in emit (DeviceStateChange deviceId Faulted Stopped None) e1
          else e)"

definition updateLayout :: "EditorLayout \<Rightarrow> SimulationEngine \<Rightarrow> SimulationEngine" where
  "updateLayout l e = e\<lparr>layout := l, graph := buildConnectivityGraph l\<rparr>"

text \<open>
  The remainder operator \<open>%\<close> of JavaScript: the quotient is truncated toward zero.
\<close>

definition js_rem :: "real \<Rightarrow> real \<Rightarrow> real" where
  "js_rem a b = a - b * of_int (if a / b \<ge> 0 then \<lfloor>a / b\<rfloor> else \<lceil>a / b\<rceil>)"

text \<open>
  Body of the loop of \<open>processSourceDevices\<close>.  With \<open>generationRate\<close> zero the
  interval \<open>1 / 0\<close> is \<open>Infinity\<close> in JavaScript and no finite timer reaches it; the
  model writes that case out, since \<open>1 / 0 = 0\<close> in HOL.
\<close>

definition processSource :: "real \<Rightarrow> SimulationEngine \<Rightarrow> Device \<Rightarrow> SimulationEngine" where
  "processSource deltaTime e device =
     (case kind device of
        Source rate \<Rightarrow>
          if state device \<noteq> Running then e
          else
            let timer = (case sourceTimers e (dev_id device) of None \<Rightarrow> 0 | Some t \<Rightarrow> t);
                newTimer = timer + deltaTime * timeScale (config e);
                interval = 1 / rate
            in if rate \<noteq> 0 \<and> newTimer \<ge> interval then
                 let (token, counter') =
                       createToken (dev_id device) device (tokenColor (config e)) (tokenIdCounter e)
                 in e\<lparr>tokens := tokens e @ [token],
                      tokenIdCounter := counter',
                      emitted := emitted e @ [TokenCreated token],
                      sourceTimers := (sourceTimers e)(dev_id device \<mapsto> js_rem newTimer interval)\<rparr>
               else e\<lparr>sourceTimers := (sourceTimers e)(dev_id device \<mapsto> newTimer)\<rparr>
      | _ \<Rightarrow> e)"

definition processSourceDevices :: "real \<Rightarrow> SimulationEngine \<Rightarrow> SimulationEngine" where
  "processSourceDevices deltaTime e = foldl (processSource deltaTime) e (devices (layout e))"

text \<open>
  Body of the loop of \<open>updateTokens\<close>; the accumulator holds \<open>tokensToRemove\<close>,
  \<open>updatedTokens\<close> and the \<open>tokenMoved\<close> events emitted so far.  The test
  \<open>if (nextDeviceId)\<close> is false for the empty string.
\<close>

definition updateTokenStep ::
  "ConnectivityGraph \<Rightarrow> Device list \<Rightarrow> real \<Rightarrow> real \<Rightarrow>
   Token list \<times> Token list \<times> SimulationEvent list \<Rightarrow> Token \<Rightarrow>
   Token list \<times> Token list \<times> SimulationEvent list" where
  "updateTokenStep g devs deltaTime scale acc token =
     (let (tokensToRemove, updatedTokens, evs) = acc
      in case getNode g (currentDeviceId token) of
           None \<Rightarrow> (tokensToRemove @ [token], updatedTokens, evs)
         | Some node \<Rightarrow>
             let device = devs ! device_ref node;
                 (advancedToken, completed) = advanceToken token device deltaTime scale
             in if completed then
                  if shouldRemoveToken advancedToken g devs
                  then (tokensToRemove @ [advancedToken], updatedTokens, evs)
                  else
                    (case getNextDeviceId advancedToken g of
                       None \<Rightarrow> (tokensToRemove @ [advancedToken], updatedTokens, evs)
                     | Some nextDeviceId \<Rightarrow>
                         if nextDeviceId = [] then (tokensToRemove @ [advancedToken], updatedTokens, evs)
                         else
                           (case getNode g nextDeviceId of
                              None \<Rightarrow> (tokensToRemove @ [advancedToken], updatedTokens, evs)
                            | Some nextNode \<Rightarrow>
                                let transferredToken =
                                      transferToken advancedToken nextDeviceId (devs ! device_ref nextNode)
                                in (tokensToRemove, updatedTokens @ [transferredToken],
                                    evs @ [TokenMoved transferredToken (currentDeviceId token) nextDeviceId])))
                else (tokensToRemove, updatedTokens @ [advancedToken], evs))"

definition updateTokens :: "real \<Rightarrow> SimulationEngine \<Rightarrow> SimulationEngine" where
  "updateTokens deltaTime e =
     (let (tokensToRemove, updatedTokens, evs) =
            foldl (updateTokenStep (graph e) (devices (layout e)) deltaTime (timeScale (config e)))
              ([], [], []) (tokens e)
      in e\<lparr>emitted := emitted e @ evs @ map TokenRemoved tokensToRemove,
           tokens := updatedTokens\<rparr>)"

definition tick :: "real \<Rightarrow> SimulationEngine \<Rightarrow> SimulationEngine" where
  "tick timestamp e =
     (if status e \<noteq> SimRunning then e
      else let deltaTime = (timestamp - lastFrameTime e) / 1000;
               e1 = e\<lparr>lastFrameTime := timestamp,
                      elapsedTime := elapsedTime e + deltaTime * timeScale (config e)\<rparr>;
               e2 = processSourceDevices deltaTime e1;
               e3 = updateTokens deltaTime e2;
               e4 = emit (TickEvent deltaTime (elapsedTime e3) (length (tokens e3))) e3
           in scheduleFrame e4)"

definition dispose :: "SimulationEngine \<Rightarrow> SimulationEngine" where
  "dispose e = reset e"

text \<open>The public operations and the frame callback, as one step function.\<close>

datatype EngineOp =
    Play real
  | Pause
  | Reset
  | Tick real
  | SetTimeScale real
  | SetDeviceState string DeviceState
  | SetDeviceFault string string
  | ClearDeviceFault string
  | UpdateLayout EditorLayout
  | Dispose

fun applyOp :: "SimulationEngine \<Rightarrow> EngineOp \<Rightarrow> SimulationEngine" where
  "applyOp e (Play now) = play now e"
| "applyOp e Pause = pause e"
| "applyOp e Reset = reset e"
| "applyOp e (Tick timestamp) = tick timestamp e"
| "applyOp e (SetTimeScale scale) = setTimeScale scale e"
| "applyOp e (SetDeviceState deviceId st) = setDeviceState deviceId st e"
| "applyOp e (SetDeviceFault deviceId reason) = setDeviceFault deviceId reason e"
| "applyOp e (ClearDeviceFault deviceId) = clearDeviceFault deviceId e"
| "applyOp e (UpdateLayout l) = updateLayout l e"
| "applyOp e Dispose = dispose e"

definition runOps :: "SimulationEngine \<Rightarrow> EngineOp list \<Rightarrow> SimulationEngine" where
  "runOps e ops = foldl applyOp e ops"

section \<open>Vocabulary of the statements\<close>

text \<open>
  Every node of the engine's graph refers to a device of the engine's layout.  The
  constructor and \<open>updateLayout\<close> build the graph from the layout, and no operation
  changes the number of devices, so every engine the code can reach satisfies this.
\<close>

definition refs_below :: "nat \<Rightarrow> ConnectivityGraph \<Rightarrow> bool" where
  "refs_below k g = (\<forall>kn \<in> set g. device_ref (snd kn) < k)"

definition engine_wf :: "SimulationEngine \<Rightarrow> bool" where
  "engine_wf e = refs_below (length (devices (layout e))) (graph e)"

fun isStatusChange :: "SimulationEvent \<Rightarrow> bool" where
  "isStatusChange (StatusChange _ _) = True"
| "isStatusChange _ = False"

fun isTokenRemoved :: "SimulationEvent \<Rightarrow> bool" where
  "isTokenRemoved (TokenRemoved _) = True"
| "isTokenRemoved _ = False"

text \<open>The events an operation emitted: those of \<open>e'\<close> after the ones \<open>e\<close> had.\<close>

definition eventsSince :: "SimulationEngine \<Rightarrow> SimulationEngine \<Rightarrow> SimulationEvent list" where
  "eventsSince e e' = drop (length (emitted e)) (emitted e')"

subsection \<open>The layout of engine.test.ts\<close>

definition createTestLayout :: EditorLayout where
  "createTestLayout =
     \<lparr>devices =
        [\<lparr>dev_id = ''source-1'', kind = Source 2, position = \<lparr>pos_x = 0, pos_y = 100\<rparr>,
          width = 50, height = 50, state = Running, faultReason = None\<rparr>,
         \<lparr>dev_id = ''conveyor-1'', kind = Conveyor 100 DirRight,
          position = \<lparr>pos_x = 60, pos_y = 100\<rparr>,
          width = 200, height = 50, state = Running, faultReason = None\<rparr>,
         \<lparr>dev_id = ''sink-1'', kind = Sink, position = \<lparr>pos_x = 270, pos_y = 100\<rparr>,
          width = 50, height = 50, state = Running, faultReason = None\<rparr>],
      connections =
        [\<lparr>fromDeviceId = ''source-1'', toDeviceId = ''conveyor-1''\<rparr>,
         \<lparr>fromDeviceId = ''conveyor-1'', toDeviceId = ''sink-1''\<rparr>]\<rparr>"

definition testEngine :: SimulationEngine where
  "testEngine = newEngine createTestLayout DEFAULT_CONFIG 0"

definition conveyorNode :: GraphNode where
  "conveyorNode = \<lparr>node_deviceId = ''conveyor-1'', device_ref = 1,
     inputs = [''source-1''], outputs = [''sink-1'']\<rparr>"

definition stoppedConveyor :: Device where
  "stoppedConveyor = \<lparr>dev_id = ''conveyor-1'', kind = Conveyor 100 DirRight,
     position = \<lparr>pos_x = 100, pos_y = 100\<rparr>, width = 200, height = 50,
     state = Stopped, faultReason = None\<rparr>"

definition halfwayToken :: Token where
  "halfwayToken = \<lparr>tok_id = ''token-1'', tok_position = \<lparr>pos_x = 200, pos_y = 125\<rparr>,
     currentDeviceId = ''conveyor-1'', progress = 1 / 2, color = ''#3b82f6''\<rparr>"

definition movedToken :: Token where
  "movedToken = \<lparr>tok_id = ''token-1'', tok_position = \<lparr>pos_x = 60, pos_y = 125\<rparr>,
     currentDeviceId = ''conveyor-1'', progress = 0, color = ''#3b82f6''\<rparr>"

text \<open>
  The test engine after \<open>play()\<close>, one frame of 500 ms and
  \<open>setDeviceFault('conveyor-1', 'Motor jam')\<close>: running, one live token, the conveyor
  faulted.
\<close>

definition faultedRunningEngine :: SimulationEngine where
  "faultedRunningEngine =
     setDeviceFault ''conveyor-1'' ''Motor jam'' (tick 500 (play 0 testEngine))"

text \<open>The invariant of the data model: a fault reason is present iff the device is faulted.\<close>

definition fault_invariant :: "Device \<Rightarrow> bool" where
  "fault_invariant d = ((faultReason d \<noteq> None) = (state d = Faulted))"

text \<open>
  The operations that keep \<open>state\<close> and \<open>faultReason\<close> of device \<open>i\<close> in step:
  \<open>setDeviceState\<close> writes \<open>state\<close> only, so on that device it is admitted exactly when it
  moves the device neither into nor out of \<open>faulted\<close>; \<open>reset\<close> (and \<open>dispose\<close>, which
  resets) is admitted while the device is not faulted; \<open>updateLayout\<close> replaces the devices.
\<close>

fun faultSafeOp :: "SimulationEngine \<Rightarrow> nat \<Rightarrow> EngineOp \<Rightarrow> bool" where
  "faultSafeOp e i (SetDeviceState deviceId st) =
     (case getNode (graph e) deviceId of
        None \<Rightarrow> True
      | Some node \<Rightarrow>
          device_ref node \<noteq> i \<or> ((st = Faulted) = (state (devices (layout e) ! i) = Faulted)))"
| "faultSafeOp e i Reset = (state (devices (layout e) ! i) \<noteq> Faulted)"
| "faultSafeOp e i Dispose = (state (devices (layout e) ! i) \<noteq> Faulted)"
| "faultSafeOp e i (UpdateLayout l) = False"
| "faultSafeOp e i _ = True"

fun faultSafeOps :: "SimulationEngine \<Rightarrow> nat \<Rightarrow> EngineOp list \<Rightarrow> bool" where
  "faultSafeOps e i [] = True"
| "faultSafeOps e i (op # ops) = (faultSafeOp e i op \<and> faultSafeOps (applyOp e op) i ops)"

definition faultCycleOps :: "EngineOp list" where
  "faultCycleOps = [SetDeviceFault ''conveyor-1'' ''Motor jam'',
     SetDeviceState ''conveyor-1'' Faulted, ClearDeviceFault ''conveyor-1'',
     SetDeviceState ''conveyor-1'' Running, Reset]"

text \<open>The tokens of the \<open>tokenCreated\<close> events of a log, in order.\<close>

fun createdTokens :: "SimulationEvent list \<Rightarrow> Token list" where
  "createdTokens [] = []"
| "createdTokens (TokenCreated t # evs) = t # createdTokens evs"
| "createdTokens (_ # evs) = createdTokens evs"

definition tokenName :: "nat \<Rightarrow> string" where
  "tokenName k = ''token-'' @ string_of_nat k"

text \<open>
  \<open>mints e e'\<close>: the log of \<open>e'\<close> extends that of \<open>e\<close>, and the tokens created in the
  extension carry, in order, the ids numbered from the counter of \<open>e\<close> (exclusive) to the
  counter of \<open>e'\<close> (inclusive).
\<close>

definition mints :: "SimulationEngine \<Rightarrow> SimulationEngine \<Rightarrow> bool" where
  "mints e e' =
     (length (emitted e) \<le> length (emitted e') \<and>
      take (length (emitted e)) (emitted e') = emitted e \<and>
      tokenIdCounter e \<le> tokenIdCounter e' \<and>
      map tok_id (createdTokens (eventsSince e e'))
        = map tokenName [Suc (tokenIdCounter e) ..< Suc (tokenIdCounter e')])"

definition twoRunsOps :: "EngineOp list" where
  "twoRunsOps = [Play 0, Tick 1000, Reset, Play 0, Tick 1000]"

definition threeFramesOps :: "EngineOp list" where
  "threeFramesOps = [Play 0, Tick 500, Pause, Play 600, Tick 1100]"

text \<open>The number of tokens a log records as created at a device.\<close>

definition createdAt :: "string \<Rightarrow> SimulationEvent list \<Rightarrow> nat" where
  "createdAt deviceId evs =
     length (filter (\<lambda>t. currentDeviceId t = deviceId) (createdTokens evs))"

text \<open>
  The engine of the test layout after \<open>play\<close> at time 0, at time scale 1 and at time
  scale 4.
\<close>

definition playedEngine :: SimulationEngine where
  "playedEngine = play 0 testEngine"

definition fastEngine :: SimulationEngine where
  "fastEngine = play 0 (setTimeScale 4 testEngine)"

text \<open>
  A non-empty list of ids in which each id is an output of the one before it, and such a
  list from \<open>a\<close> to \<open>b\<close>.
\<close>

fun validPath :: "ConnectivityGraph \<Rightarrow> string list \<Rightarrow> bool" where
  "validPath g [] = False"
| "validPath g [a] = True"
| "validPath g (a # b # rest) = (b \<in> set (getConnectedOutputs g a) \<and> validPath g (b # rest))"

definition pathFromTo :: "ConnectivityGraph \<Rightarrow> string \<Rightarrow> string \<Rightarrow> string list \<Rightarrow> bool" where
  "pathFromTo g a b p = (validPath g p \<and> hd p = a \<and> last p = b)"

text \<open>\<open>walk g a n b\<close>: \<open>b\<close> is reached from \<open>a\<close> over \<open>n\<close> output edges.\<close>

inductive walk :: "ConnectivityGraph \<Rightarrow> string \<Rightarrow> nat \<Rightarrow> string \<Rightarrow> bool" for g a where
  walk0: "walk g a 0 a"
| walkS: "walk g a n b \<Longrightarrow> c \<in> set (getConnectedOutputs g b) \<Longrightarrow> walk g a (Suc n) c"

text \<open>
  The invariant of the \<open>while\<close> loop of \<open>findPath\<close>: the queue holds shortest paths
  from \<open>a\<close>, in order of length, with lengths that differ by at most one; the target is
  not visited; every visited node that is no longer queued has all its outputs visited.
\<close>

definition bfs_inv ::
  "ConnectivityGraph \<Rightarrow> string \<Rightarrow> string \<Rightarrow> string set \<Rightarrow> (string \<times> string list) list \<Rightarrow> bool" where
  "bfs_inv g a t V Q =
     (a \<in> V \<and> t \<notin> V \<and>
      (\<forall>vp \<in> set Q. validPath g (snd vp) \<and> hd (snd vp) = a \<and> last (snd vp) = fst vp \<and>
          fst vp \<in> V \<and> (\<forall>k. walk g a k (fst vp) \<longrightarrow> length (snd vp) \<le> Suc k)) \<and>
      sorted (map (\<lambda>vp. length (snd vp)) Q) \<and>
      (\<forall>vp \<in> set Q. \<forall>vp' \<in> set Q. length (snd vp') \<le> Suc (length (snd vp))) \<and>
      (\<forall>x \<in> V. x \<notin> fst ` set Q \<longrightarrow> set (getConnectedOutputs g x) \<subseteq> V))"

text \<open>The output edges of a graph, and all ids that occur in it.\<close>

definition edges :: "ConnectivityGraph \<Rightarrow> (string \<times> string) set" where
  "edges g = {(a, b). b \<in> set (getConnectedOutputs g a)}"

definition graphIds :: "ConnectivityGraph \<Rightarrow> string set" where
  "graphIds g = fst ` set g \<union> allOutputs g"

text \<open>
  The invariant of \<open>hasCycle\<close>: the recursion stack \<open>S\<close> is visited; the visited nodes
  that are off the stack have all their successors among them and lie on no cycle.
\<close>

definition blackInv :: "ConnectivityGraph \<Rightarrow> string set \<Rightarrow> string set \<Rightarrow> bool" where
  "blackInv g V S =
     (S \<subseteq> V \<and> V \<subseteq> graphIds g \<and>
      (\<forall>b \<in> V - S. \<forall>c. (b, c) \<in> edges g \<longrightarrow> c \<in> V - S) \<and>
      (\<forall>b \<in> V - S. (b, b) \<notin> (edges g)\<^sup>+))"

text \<open>
  What a call of \<open>dfs\<close> or of its loop returns from visited set \<open>V\<close> and stack \<open>S\<close>: it
  does return; \<open>true\<close> only when the graph has a cycle; with \<open>false\<close> the stack is as
  before, the invariant holds and the nodes \<open>B\<close> are visited and off the stack.
\<close>

definition dfsResult ::
  "ConnectivityGraph \<Rightarrow> string set \<Rightarrow> string set \<Rightarrow> string set \<Rightarrow>
   (bool \<times> string set \<times> string set) option \<Rightarrow> bool" where
  "dfsResult g V S B r =
     (case r of
        None \<Rightarrow> False
      | Some (b, V', S') \<Rightarrow>
          if b then \<not> acyclic (edges g)
          else V \<subseteq> V' \<and> S' = S \<and> blackInv g V' S' \<and> B \<subseteq> V' - S')"

text \<open>
  What \<open>buildConnectivityGraph\<close> establishes: the keys are distinct, every output is a
  key, no list has duplicates, and \<open>b\<close> is an output of \<open>a\<close> iff \<open>a\<close> is an input of \<open>b\<close>.
\<close>

definition graphConsistent :: "ConnectivityGraph \<Rightarrow> bool" where
  "graphConsistent g =
     (distinct (map fst g) \<and>
      (\<forall>a. set (getConnectedOutputs g a) \<subseteq> fst ` set g) \<and>
      (\<forall>a. distinct (getConnectedOutputs g a)) \<and>
      (\<forall>b. distinct (getConnectedInputs g b)) \<and>
      (\<forall>a b. b \<in> set (getConnectedOutputs g a) \<longleftrightarrow> a \<in> set (getConnectedInputs g b)))"

text \<open>
  The invariant of the \<open>while\<close> loop of \<open>topologicalSort\<close>: the in-degree of a node is
  the number of its inputs not yet in the result, the queue holds the nodes outside the
  result with in-degree 0, and every node of the result comes after its inputs.
\<close>

definition kahn_inv ::
  "ConnectivityGraph \<Rightarrow> (string \<rightharpoonup> int) \<Rightarrow> string list \<Rightarrow> string list \<Rightarrow> bool" where
  "kahn_inv g inDegree queue result =
     (distinct (result @ queue) \<and> set (result @ queue) \<subseteq> fst ` set g \<and>
      (\<forall>k \<in> fst ` set g.
         inDegree k = Some (int (card (set (getConnectedInputs g k) - set result)))) \<and>
      (\<forall>k \<in> fst ` set g. k \<in> set queue \<longleftrightarrow> k \<notin> set result \<and> inDegree k = Some 0) \<and>
      (\<forall>i < length result. set (getConnectedInputs g (result ! i)) \<subseteq> set (take i result)))"

text \<open>The \<open>newDegree\<close> that the loop over the outputs computes for an id.\<close>

definition decremented :: "(string \<rightharpoonup> int) \<Rightarrow> string \<Rightarrow> int" where
  "decremented inDegree k = (case inDegree k of None \<Rightarrow> 0 | Some d \<Rightarrow> d) - 1"

text \<open>Scenario 3 of the specification: two conveyors connected in a cycle.\<close>

definition cycleLayout :: EditorLayout where
  "cycleLayout =
     \<lparr>devices =
        [\<lparr>dev_id = ''A'', kind = Conveyor 100 DirRight, position = \<lparr>pos_x = 0, pos_y = 0\<rparr>,
          width = 100, height = 50, state = Running, faultReason = None\<rparr>,
         \<lparr>dev_id = ''B'', kind = Conveyor 100 DirRight, position = \<lparr>pos_x = 0, pos_y = 0\<rparr>,
          width = 100, height = 50, state = Running, faultReason = None\<rparr>],
      connections =
        [\<lparr>fromDeviceId = ''A'', toDeviceId = ''B''\<rparr>,
         \<lparr>fromDeviceId = ''B'', toDeviceId = ''A''\<rparr>]\<rparr>"

section \<open>The graph refers to devices of the layout\<close>

lemma map_set_mem: "kn \<in> set (map_set m k v) \<Longrightarrow> kn = (k, v) \<or> kn \<in> set m"
  by (induction m k v rule: map_set.induct) (auto split: if_splits)

lemma map_set_refs:
  "refs_below k m \<Longrightarrow> device_ref v < k \<Longrightarrow> refs_below k (map_set m key v)"
  unfolding refs_below_def by (auto dest: map_set_mem)

lemma map_of_refs:
  "refs_below k m \<Longrightarrow> map_of m key = Some v \<Longrightarrow> device_ref v < k"
  unfolding refs_below_def by (force dest: map_of_SomeD)

lemma refs_below_mono: "refs_below i g \<Longrightarrow> i \<le> j \<Longrightarrow> refs_below j g"
  unfolding refs_below_def by fastforce

lemma initNodes_refs:
  "refs_below i g \<Longrightarrow> refs_below (i + length ds) (initNodes g i ds)"
proof (induction g i ds rule: initNodes.induct)
  case (1 g i)
  then show ?case by simp
next
  case (2 g i d ds)
  let ?nd = "\<lparr>node_deviceId = dev_id d, device_ref = i, inputs = [], outputs = []\<rparr>"
  have "refs_below (Suc i) (map_set g (dev_id d) ?nd)"
    by (rule map_set_refs) (use "2.prems" in \<open>simp_all add: refs_below_mono [of i g "Suc i"]\<close>)
  from "2.IH" [OF this] show ?case by simp
qed

lemma addOutput_refs: "refs_below k g \<Longrightarrow> refs_below k (addOutput g a b)"
  by (auto simp: addOutput_def split: option.splits intro!: map_set_refs dest: map_of_refs)

lemma addInput_refs: "refs_below k g \<Longrightarrow> refs_below k (addInput g a b)"
  by (auto simp: addInput_def split: option.splits intro!: map_set_refs dest: map_of_refs)

lemma addConnection_refs: "refs_below k g \<Longrightarrow> refs_below k (addConnection g c)"
  by (simp add: addConnection_def addOutput_refs addInput_refs)

lemma foldl_addConnection_refs:
  "refs_below k g \<Longrightarrow> refs_below k (foldl addConnection g cs)"
  by (induction cs arbitrary: g) (simp_all add: addConnection_refs)

lemma buildConnectivityGraph_refs:
  "refs_below (length (devices l)) (buildConnectivityGraph l)"
proof -
  have "refs_below 0 []" by (simp add: refs_below_def)
  from initNodes_refs [OF this, of "devices l"] show ?thesis
    by (simp add: buildConnectivityGraph_def foldl_addConnection_refs)
qed

lemma engine_wf_newEngine: "engine_wf (newEngine l cfg c)"
  using buildConnectivityGraph_refs [of l] by (simp add: engine_wf_def newEngine_def)

lemma getNode_ref:
  "engine_wf e \<Longrightarrow> getNode (graph e) k = Some n \<Longrightarrow> device_ref n < length (devices (layout e))"
  unfolding engine_wf_def getNode_def by (rule map_of_refs)

section \<open>Evaluation of the test layout\<close>

lemma graph_createTestLayout:
  "buildConnectivityGraph createTestLayout =
     [(''source-1'', \<lparr>node_deviceId = ''source-1'', device_ref = 0, inputs = [],
         outputs = [''conveyor-1'']\<rparr>),
      (''conveyor-1'', conveyorNode),
      (''sink-1'', \<lparr>node_deviceId = ''sink-1'', device_ref = 2, inputs = [''conveyor-1''],
         outputs = []\<rparr>)]"
  by (simp add: buildConnectivityGraph_def createTestLayout_def addConnection_def
      addOutput_def addInput_def conveyorNode_def)

lemma testEngine_eq:
  "testEngine =
     \<lparr>layout = createTestLayout,
      graph = [(''source-1'', \<lparr>node_deviceId = ''source-1'', device_ref = 0, inputs = [],
                 outputs = [''conveyor-1'']\<rparr>),
               (''conveyor-1'', conveyorNode),
               (''sink-1'', \<lparr>node_deviceId = ''sink-1'', device_ref = 2,
                 inputs = [''conveyor-1''], outputs = []\<rparr>)],
      tokens = [], status = SimStopped, config = DEFAULT_CONFIG, elapsedTime = 0,
      lastFrameTime = 0, animationFrameId = None, sourceTimers = Map.empty,
      tokenIdCounter = 0, frameRequests = 0, emitted = []\<rparr>"
  by (simp add: testEngine_def newEngine_def graph_createTestLayout)

lemma calculateDistance_horizontal:
  "pos_y a = pos_y b \<Longrightarrow> calculateDistance a b = \<bar>pos_x b - pos_x a\<bar>"
  by (simp add: calculateDistance_def Let_def)

lemmas engine_eval =
  play_def pause_def tick_def reset_def Let_def initializeSourceTimers_def emit_def
  scheduleFrame_def cancelFrame_def createTestLayout_def DEFAULT_CONFIG_def conveyorNode_def
  processSourceDevices_def processSource_def createToken_def generateTokenId_def
  resetTokenIdCounter_def resetDeviceStates_def js_rem_def updateTokens_def
  updateTokenStep_def getNode_def advanceToken_def transferToken_def createPathSegment_def
  getDeviceEntryPoint_def getDeviceExitPoint_def calculateDistance_horizontal
  calculateProgressDelta_def getEffectiveSpeed_def getPositionOnSegment_def
  string_of_nat.simps shouldRemoveToken_def getNextDeviceId_def getConnectedOutputs_def
  setDeviceFault_def setDeviceState_def clearDeviceFault_def nodeDevice_def mutateDevice_def

text \<open>
  Evaluation order for concrete inputs: the bound value of a \<open>let\<close> and the scrutinee of
  a \<open>case\<close> are simplified before the body.
\<close>

lemmas eval_cong = let_weak_cong option.case_cong_weak list.case_cong_weak
  DeviceKind.case_cong_weak Direction.case_cong_weak prod.case_cong_weak

section \<open>Device operations and reset\<close>

lemma reset_emitted:
  "emitted (reset e) =
     emitted e @ map TokenRemoved (tokens e) @ [StatusChange (status e) SimStopped]"
  by (simp add: reset_def Let_def emit_def cancelFrame_def)

lemma reset_devices: "devices (layout (reset e)) = resetDeviceStates (devices (layout e))"
  by (simp add: reset_def Let_def emit_def cancelFrame_def)

lemma filter_removed_map: "filter isTokenRemoved (map TokenRemoved ts) = map TokenRemoved ts"
  by (induction ts) auto

lemma filter_status_map: "filter isStatusChange (map TokenRemoved ts) = []"
  by (induction ts) auto

lemma mutateDevice_nodeDevice:
  "device_ref node < length (devices (layout e)) \<Longrightarrow>
   nodeDevice (mutateDevice node f e) node = f (nodeDevice e node)"
  by (simp add: nodeDevice_def mutateDevice_def)

lemma nodeDevice_emit: "nodeDevice (emit ev e) node = nodeDevice e node"
  by (simp add: nodeDevice_def emit_def)

section \<open>Claims about motion, device operations and reset\<close>

text \<open>
  C6: after \<open>reset\<close> the token list is empty, the elapsed time is 0, there are no source
  timers, the \<open>tokenRemoved\<close> events emitted are one per token that was live, in order, and
  every device that was faulted is stopped.
\<close>

theorem reset_clears_simulation:
  "tokens (reset e) = [] \<and>
   elapsedTime (reset e) = 0 \<and>
   sourceTimers (reset e) = Map.empty \<and>
   filter isTokenRemoved (eventsSince e (reset e)) = map TokenRemoved (tokens e) \<and>
   length (devices (layout (reset e))) = length (devices (layout e)) \<and>
   (\<forall>i < length (devices (layout e)).
      state (devices (layout e) ! i) = Faulted \<longrightarrow>
      state (devices (layout (reset e)) ! i) = Stopped)"
proof -
  have "tokens (reset e) = []" "elapsedTime (reset e) = 0" "sourceTimers (reset e) = Map.empty"
    by (simp_all add: reset_def Let_def emit_def cancelFrame_def)
  moreover have "filter isTokenRemoved (eventsSince e (reset e)) = map TokenRemoved (tokens e)"
    by (simp add: eventsSince_def reset_emitted filter_removed_map)
  moreover have "length (devices (layout (reset e))) = length (devices (layout e))"
    by (simp add: reset_devices resetDeviceStates_def)
  moreover have "\<forall>i < length (devices (layout e)).
      state (devices (layout e) ! i) = Faulted \<longrightarrow>
      state (devices (layout (reset e)) ! i) = Stopped"
    by (simp add: reset_devices resetDeviceStates_def)
  ultimately show ?thesis by blast
qed

theorem reset_clears_simulation_witness:
  "status faultedRunningEngine = SimRunning \<and>
   tokens faultedRunningEngine = [movedToken] \<and>
   (1::nat) < length (devices (layout faultedRunningEngine)) \<and>
   state (devices (layout faultedRunningEngine) ! 1) = Faulted \<and>
   state (devices (layout (reset faultedRunningEngine)) ! 1) = Stopped \<and>
   tokens (reset faultedRunningEngine) = [] \<and>
   elapsedTime (reset faultedRunningEngine) = 0 \<and>
   filter isTokenRemoved (eventsSince faultedRunningEngine (reset faultedRunningEngine))
     = [TokenRemoved movedToken]"
proof -
  have a: "status faultedRunningEngine = SimRunning"
    by (simp add: faultedRunningEngine_def testEngine_eq engine_eval cong: eval_cong)
  have b: "tokens faultedRunningEngine = [movedToken]"
    by (simp add: faultedRunningEngine_def movedToken_def testEngine_eq engine_eval
        cong: eval_cong)
  have c: "(1::nat) < length (devices (layout faultedRunningEngine))"
    by (simp add: faultedRunningEngine_def testEngine_eq engine_eval cong: eval_cong)
  have d: "state (devices (layout faultedRunningEngine) ! 1) = Faulted"
    by (simp add: faultedRunningEngine_def testEngine_eq engine_eval cong: eval_cong)
  from reset_clears_simulation [of faultedRunningEngine] a b c d
  show ?thesis by simp
qed

text \<open>
  C7: a device that is not running has effective speed 0 and progress delta 0 for every
  segment, time step and time scale; a token below progress 1 on such a device keeps its
  progress and is not reported as completed.
\<close>

theorem stopped_device_is_immobile:
  "state device \<noteq> Running \<Longrightarrow>
     getEffectiveSpeed device = 0 \<and>
     calculateProgressDelta device segment dt scale = 0 \<and>
     (progress token < 1 \<longrightarrow>
        progress (fst (advanceToken token device dt scale)) = progress token \<and>
        \<not> snd (advanceToken token device dt scale))"
  by (simp add: getEffectiveSpeed_def calculateProgressDelta_def advanceToken_def Let_def)

theorem stopped_device_is_immobile_witness:
  "state stoppedConveyor \<noteq> Running \<and>
   getEffectiveSpeed stoppedConveyor = 0 \<and>
   calculateProgressDelta stoppedConveyor (createPathSegment stoppedConveyor) 2 1 = 0 \<and>
   progress halfwayToken < 1 \<and>
   progress (fst (advanceToken halfwayToken stoppedConveyor 2 1)) = 1 / 2 \<and>
   \<not> snd (advanceToken halfwayToken stoppedConveyor 2 1)"
proof -
  have h: "state stoppedConveyor \<noteq> Running" by (simp add: stoppedConveyor_def)
  have p: "progress halfwayToken < 1" by (simp add: halfwayToken_def)
  have q: "progress halfwayToken = 1 / 2" by (simp add: halfwayToken_def)
  from stopped_device_is_immobile [OF h, of "createPathSegment stoppedConveyor" 2 1 halfwayToken]
  show ?thesis using h p q by simp
qed

text \<open>
  C8: \<open>clearDeviceFault\<close> leaves the engine as it is when the id has no node or the
  node's device is not faulted; when the device is faulted, it is stopped afterwards and has
  no fault reason; so \<open>setDeviceFault\<close> followed by \<open>clearDeviceFault\<close> leaves the device
  stopped with no fault reason.
\<close>

theorem clearDeviceFault_stops_faulted_only:
  "(getNode (graph e) deviceId = None \<longrightarrow> clearDeviceFault deviceId e = e) \<and>
   (\<forall>node. getNode (graph e) deviceId = Some node \<longrightarrow>
      (state (nodeDevice e node) \<noteq> Faulted \<longrightarrow> clearDeviceFault deviceId e = e) \<and>
      (engine_wf e \<longrightarrow>
        (state (nodeDevice e node) = Faulted \<longrightarrow>
           state (nodeDevice (clearDeviceFault deviceId e) node) = Stopped \<and>
           faultReason (nodeDevice (clearDeviceFault deviceId e) node) = None) \<and>
        state (nodeDevice (clearDeviceFault deviceId (setDeviceFault deviceId reason e)) node)
          = Stopped \<and>
        faultReason (nodeDevice (clearDeviceFault deviceId (setDeviceFault deviceId reason e)) node)
          = None))"
proof (intro conjI allI impI)
  show "getNode (graph e) deviceId = None \<Longrightarrow> clearDeviceFault deviceId e = e"
    by (simp add: clearDeviceFault_def)
next
  fix node
  assume n: "getNode (graph e) deviceId = Some node"
  { assume "state (nodeDevice e node) \<noteq> Faulted"
    then show "clearDeviceFault deviceId e = e" using n by (simp add: clearDeviceFault_def) }
  assume wf: "engine_wf e"
  have r: "device_ref node < length (devices (layout e))"
    using wf n by (rule getNode_ref)
  { assume f: "state (nodeDevice e node) = Faulted"
    show "state (nodeDevice (clearDeviceFault deviceId e) node) = Stopped"
      using n f r by (simp add: clearDeviceFault_def Let_def mutateDevice_nodeDevice nodeDevice_emit)
    show "faultReason (nodeDevice (clearDeviceFault deviceId e) node) = None"
      using n f r by (simp add: clearDeviceFault_def Let_def mutateDevice_nodeDevice nodeDevice_emit) }
  let ?e1 = "setDeviceFault deviceId reason e"
  have g1: "graph ?e1 = graph e"
    using n by (simp add: setDeviceFault_def Let_def emit_def mutateDevice_def)
  have l1: "length (devices (layout ?e1)) = length (devices (layout e))"
    using n by (simp add: setDeviceFault_def Let_def emit_def mutateDevice_def)
  have s1: "state (nodeDevice ?e1 node) = Faulted"
    using n r by (simp add: setDeviceFault_def Let_def mutateDevice_nodeDevice nodeDevice_emit)
  show "state (nodeDevice (clearDeviceFault deviceId ?e1) node) = Stopped"
    using n g1 l1 s1 r by (simp add: clearDeviceFault_def Let_def mutateDevice_nodeDevice nodeDevice_emit)
  show "faultReason (nodeDevice (clearDeviceFault deviceId ?e1) node) = None"
    using n g1 l1 s1 r by (simp add: clearDeviceFault_def Let_def mutateDevice_nodeDevice nodeDevice_emit)
qed

theorem clearDeviceFault_stops_faulted_only_witness:
  "getNode (graph testEngine) ''no-such-device'' = None \<and>
   clearDeviceFault ''no-such-device'' testEngine = testEngine \<and>
   getNode (graph testEngine) ''conveyor-1'' = Some conveyorNode \<and>
   state (nodeDevice testEngine conveyorNode) \<noteq> Faulted \<and>
   clearDeviceFault ''conveyor-1'' testEngine = testEngine \<and>
   engine_wf testEngine \<and>
   getNode (graph (setDeviceFault ''conveyor-1'' ''Motor jam'' testEngine)) ''conveyor-1''
     = Some conveyorNode \<and>
   engine_wf (setDeviceFault ''conveyor-1'' ''Motor jam'' testEngine) \<and>
   state (nodeDevice (setDeviceFault ''conveyor-1'' ''Motor jam'' testEngine) conveyorNode) = Faulted \<and>
   state (nodeDevice (clearDeviceFault ''conveyor-1''
      (setDeviceFault ''conveyor-1'' ''Motor jam'' testEngine)) conveyorNode) = Stopped \<and>
   faultReason (nodeDevice (clearDeviceFault ''conveyor-1''
      (setDeviceFault ''conveyor-1'' ''Motor jam'' testEngine)) conveyorNode) = None"
proof -
  let ?f = "setDeviceFault ''conveyor-1'' ''Motor jam'' testEngine"
  have a: "getNode (graph testEngine) ''no-such-device'' = None"
    by (simp add: testEngine_eq getNode_def)
  have b: "getNode (graph testEngine) ''conveyor-1'' = Some conveyorNode"
    by (simp add: testEngine_eq getNode_def)
  have c: "state (nodeDevice testEngine conveyorNode) \<noteq> Faulted"
    by (simp add: testEngine_eq engine_eval)
  have d: "engine_wf testEngine"
    unfolding testEngine_def by (rule engine_wf_newEngine)
  have b': "getNode (graph ?f) ''conveyor-1'' = Some conveyorNode"
    by (simp add: testEngine_eq engine_eval)
  have d': "engine_wf ?f"
    by (simp add: testEngine_eq engine_eval engine_wf_def refs_below_def)
  have c': "state (nodeDevice ?f conveyorNode) = Faulted"
    by (simp add: testEngine_eq engine_eval)
  note th1 = clearDeviceFault_stops_faulted_only [of testEngine "''no-such-device''" "''Motor jam''"]
  note th2 = clearDeviceFault_stops_faulted_only [of testEngine "''conveyor-1''" "''Motor jam''"]
  note th3 = clearDeviceFault_stops_faulted_only [of ?f "''conveyor-1''" "''Motor jam''"]
  show ?thesis
    using th1 th2 th3 a b c d b' c' d' by blast
qed

text \<open>
  C9: for an id that is not a key of the engine's graph, \<open>setDeviceState\<close>,
  \<open>setDeviceFault\<close> and \<open>clearDeviceFault\<close> return the engine unchanged: no device is
  modified and nothing is emitted.
\<close>

theorem unknown_device_ops_are_noops:
  "deviceId \<notin> fst ` set (graph e) \<Longrightarrow>
     setDeviceState deviceId st e = e \<and>
     setDeviceFault deviceId reason e = e \<and>
     clearDeviceFault deviceId e = e"
  by (simp add: setDeviceState_def setDeviceFault_def clearDeviceFault_def getNode_def
      map_of_eq_None_iff [THEN iffD2])

theorem unknown_device_ops_are_noops_witness:
  "''no-such-device'' \<notin> fst ` set (graph testEngine) \<and>
   setDeviceState ''no-such-device'' Stopped testEngine = testEngine \<and>
   setDeviceFault ''no-such-device'' ''Motor jam'' testEngine = testEngine \<and>
   clearDeviceFault ''no-such-device'' testEngine = testEngine"
proof -
  have h: "''no-such-device'' \<notin> fst ` set (graph testEngine)"
    by (simp add: testEngine_eq)
  from unknown_device_ops_are_noops [OF h, of Stopped "''Motor jam''"] h
  show ?thesis by simp
qed

text \<open>
  C10: the events \<open>reset\<close> emits are one \<open>tokenRemoved\<close> per live token followed by one
  \<open>statusChange\<close> from the previous status to \<open>stopped\<close>, whatever the status was: exactly
  one \<open>statusChange\<close>, from \<open>stopped\<close> to \<open>stopped\<close> when the engine was already stopped.
  \<open>play\<close> on a running engine and \<open>pause\<close> on an engine that is not running change
  nothing.
\<close>

theorem reset_always_emits_statusChange:
  "eventsSince e (reset e) = map TokenRemoved (tokens e) @ [StatusChange (status e) SimStopped] \<and>
   length (filter isStatusChange (eventsSince e (reset e))) = 1 \<and>
   (status e = SimStopped \<longrightarrow>
      filter isStatusChange (eventsSince e (reset e)) = [StatusChange SimStopped SimStopped]) \<and>
   (status e = SimRunning \<longrightarrow> play now e = e) \<and>
   (status e \<noteq> SimRunning \<longrightarrow> pause e = e)"
  by (simp add: eventsSince_def reset_emitted filter_status_map play_def pause_def)

theorem reset_always_emits_statusChange_witness:
  "status testEngine = SimStopped \<and>
   filter isStatusChange (eventsSince testEngine (reset testEngine))
     = [StatusChange SimStopped SimStopped] \<and>
   pause testEngine = testEngine \<and>
   status (play 0 testEngine) = SimRunning \<and>
   play 5 (play 0 testEngine) = play 0 testEngine"
proof -
  have a: "status testEngine = SimStopped" by (simp add: testEngine_eq)
  have b: "status (play 0 testEngine) = SimRunning" by (simp add: testEngine_eq engine_eval)
  from reset_always_emits_statusChange [of testEngine 0]
       reset_always_emits_statusChange [of "play 0 testEngine" 5] a b
  show ?thesis by simp
qed

section \<open>What the operations leave unchanged\<close>

lemma processSource_frame:
  "layout (processSource dt e d) = layout e \<and> graph (processSource dt e d) = graph e \<and>
   config (processSource dt e d) = config e \<and> status (processSource dt e d) = status e \<and>
   elapsedTime (processSource dt e d) = elapsedTime e \<and>
   lastFrameTime (processSource dt e d) = lastFrameTime e"
  by (simp add: processSource_def Let_def split: DeviceKind.splits prod.splits)

lemma foldl_processSource_frame:
  "layout (foldl (processSource dt) e ds) = layout e \<and>
   graph (foldl (processSource dt) e ds) = graph e \<and>
   config (foldl (processSource dt) e ds) = config e \<and>
   status (foldl (processSource dt) e ds) = status e \<and>
   elapsedTime (foldl (processSource dt) e ds) = elapsedTime e \<and>
   lastFrameTime (foldl (processSource dt) e ds) = lastFrameTime e"
  by (induction ds arbitrary: e) (simp_all add: processSource_frame)

lemma processSourceDevices_frame:
  "layout (processSourceDevices dt e) = layout e \<and>
   graph (processSourceDevices dt e) = graph e \<and>
   config (processSourceDevices dt e) = config e \<and>
   status (processSourceDevices dt e) = status e \<and>
   elapsedTime (processSourceDevices dt e) = elapsedTime e \<and>
   lastFrameTime (processSourceDevices dt e) = lastFrameTime e"
  unfolding processSourceDevices_def by (rule foldl_processSource_frame)

lemma updateTokens_frame:
  "layout (updateTokens dt e) = layout e \<and> graph (updateTokens dt e) = graph e \<and>
   config (updateTokens dt e) = config e \<and> status (updateTokens dt e) = status e \<and>
   elapsedTime (updateTokens dt e) = elapsedTime e \<and>
   lastFrameTime (updateTokens dt e) = lastFrameTime e \<and>
   sourceTimers (updateTokens dt e) = sourceTimers e \<and>
   tokenIdCounter (updateTokens dt e) = tokenIdCounter e"
  by (simp add: updateTokens_def Let_def split: prod.splits)

lemma tick_frame:
  "layout (tick t e) = layout e \<and> graph (tick t e) = graph e \<and> config (tick t e) = config e \<and>
   status (tick t e) = status e"
  by (simp add: tick_def Let_def emit_def scheduleFrame_def updateTokens_frame
      processSourceDevices_frame)

lemma play_frame:
  "layout (play now e) = layout e \<and> graph (play now e) = graph e \<and> config (play now e) = config e"
  by (simp add: play_def Let_def emit_def scheduleFrame_def initializeSourceTimers_def)

lemma pause_frame:
  "layout (pause e) = layout e \<and> graph (pause e) = graph e \<and> config (pause e) = config e"
  by (simp add: pause_def Let_def emit_def cancelFrame_def)

lemma setTimeScale_frame:
  "layout (setTimeScale s e) = layout e \<and> graph (setTimeScale s e) = graph e"
  by (simp add: setTimeScale_def)

lemma reset_graph: "graph (reset e) = graph e"
  by (simp add: reset_def Let_def emit_def cancelFrame_def)

lemma mutateDevice_devices:
  "devices (layout (mutateDevice node f e)) =
     (devices (layout e))[device_ref node := f (devices (layout e) ! device_ref node)]"
  by (simp add: mutateDevice_def)

lemma mutateDevice_graph: "graph (mutateDevice node f e) = graph e"
  by (simp add: mutateDevice_def)

lemma emit_frame: "layout (emit ev e) = layout e \<and> graph (emit ev e) = graph e"
  by (simp add: emit_def)

lemma device_op_shape:
  "graph (setDeviceState k st e) = graph e \<and>
   length (devices (layout (setDeviceState k st e))) = length (devices (layout e)) \<and>
   graph (setDeviceFault k r e) = graph e \<and>
   length (devices (layout (setDeviceFault k r e))) = length (devices (layout e)) \<and>
   graph (clearDeviceFault k e) = graph e \<and>
   length (devices (layout (clearDeviceFault k e))) = length (devices (layout e))"
  by (simp add: setDeviceState_def setDeviceFault_def clearDeviceFault_def Let_def emit_frame
      mutateDevice_devices mutateDevice_graph split: option.splits)

lemma applyOp_shape:
  assumes "\<forall>l. op \<noteq> UpdateLayout l"
  shows "graph (applyOp e op) = graph e \<and>
         length (devices (layout (applyOp e op))) = length (devices (layout e))"
  using assms
  by (cases op)
     (simp_all add: play_frame pause_frame tick_frame setTimeScale_frame reset_graph
        reset_devices resetDeviceStates_def device_op_shape dispose_def)

lemma applyOp_wf:
  "engine_wf e \<Longrightarrow> engine_wf (applyOp e op)"
proof (cases "\<exists>l. op = UpdateLayout l")
  case True
  then show ?thesis
    using buildConnectivityGraph_refs by (auto simp: engine_wf_def updateLayout_def)
next
  case False
  assume "engine_wf e"
  with False applyOp_shape [of op e] show ?thesis by (simp add: engine_wf_def)
qed

lemma mutateDevice_nth:
  "i < length (devices (layout e)) \<Longrightarrow>
   devices (layout (mutateDevice node f e)) ! i =
     (if device_ref node = i then f (devices (layout e) ! i) else devices (layout e) ! i)"
  by (cases "device_ref node = i") (simp_all add: mutateDevice_def)

lemma applyOp_fault_invariant:
  assumes i: "i < length (devices (layout e))"
    and inv: "fault_invariant (devices (layout e) ! i)"
    and safe: "faultSafeOp e i op"
  shows "fault_invariant (devices (layout (applyOp e op)) ! i)"
proof (cases op)
  case (SetDeviceState k st)
  show ?thesis
  proof (cases "getNode (graph e) k")
    case None
    then show ?thesis using inv SetDeviceState by (simp add: setDeviceState_def)
  next
    case (Some node)
    then show ?thesis
      using inv safe i SetDeviceState
      by (auto simp: setDeviceState_def Let_def emit_frame mutateDevice_nth
          fault_invariant_def)
  qed
next
  case (SetDeviceFault k r)
  then show ?thesis
    using inv i
    by (auto simp: setDeviceFault_def Let_def emit_frame mutateDevice_nth
        fault_invariant_def split: option.splits)
next
  case (ClearDeviceFault k)
  then show ?thesis
    using inv i
    by (auto simp: clearDeviceFault_def Let_def emit_frame mutateDevice_nth
        fault_invariant_def split: option.splits)
next
  case Reset
  then show ?thesis
    using inv i safe by (simp add: reset_devices resetDeviceStates_def)
next
  case Dispose
  then show ?thesis
    using inv i safe by (simp add: dispose_def reset_devices resetDeviceStates_def)
next
  case (UpdateLayout l)
  then show ?thesis using safe by simp
qed (use inv in \<open>simp_all add: play_frame pause_frame tick_frame setTimeScale_frame\<close>)

lemma runOps_fault_invariant:
  "i < length (devices (layout e)) \<Longrightarrow> fault_invariant (devices (layout e) ! i) \<Longrightarrow>
   faultSafeOps e i ops \<Longrightarrow> fault_invariant (devices (layout (runOps e ops)) ! i)"
proof (induction ops arbitrary: e)
  case Nil
  then show ?case by (simp add: runOps_def)
next
  case (Cons op ops)
  from Cons.prems have safe: "faultSafeOp e i op" and rest: "faultSafeOps (applyOp e op) i ops"
    by simp_all
  have nl: "\<forall>l. op \<noteq> UpdateLayout l" using safe by auto
  have "fault_invariant (devices (layout (runOps (applyOp e op) ops)) ! i)"
  proof (rule Cons.IH)
    show "i < length (devices (layout (applyOp e op)))"
      using applyOp_shape [OF nl, of e] Cons.prems(1) by simp
    show "fault_invariant (devices (layout (applyOp e op)) ! i)"
      using Cons.prems(1,2) safe by (rule applyOp_fault_invariant)
    show "faultSafeOps (applyOp e op) i ops" by (rule rest)
  qed
  then show ?case by (simp add: runOps_def)
qed

lemma map_update_same: "f y = f (xs ! k) \<Longrightarrow> map f (xs[k := y]) = map f xs"
  by (induction xs arbitrary: k) (auto split: nat.splits)

lemma setDeviceState_faultReason:
  "map faultReason (devices (layout (setDeviceState deviceId st e)))
     = map faultReason (devices (layout e))"
  by (simp add: setDeviceState_def Let_def emit_frame mutateDevice_def map_update_same
      split: option.splits)

lemma setDeviceState_state:
  "map state (devices (layout (setDeviceState deviceId st e)))
     = (case getNode (graph e) deviceId of
          None \<Rightarrow> map state (devices (layout e))
        | Some node \<Rightarrow> (map state (devices (layout e)))[device_ref node := st])"
  by (simp add: setDeviceState_def Let_def emit_frame mutateDevice_def map_update
      split: option.splits)

lemma reset_state:
  "map state (devices (layout (reset e)))
     = map (\<lambda>s. if s = Faulted then Stopped else s) (map state (devices (layout e)))"
  by (simp add: reset_devices resetDeviceStates_def)

section \<open>Claims about the fault invariant and token ids\<close>

text \<open>
  C1 (as amended): \<open>setDeviceState\<close> gives the device of a known id the given state,
  changes the state of no other device (of none, for an unknown id), and leaves the
  \<open>faultReason\<close> of every device as it was; \<open>reset\<close> turns the state of every faulted
  device to \<open>stopped\<close> and leaves every other state. A device that satisfies
  "faultReason is defined iff state is faulted" still satisfies it after any sequence of engine operations (\<open>play\<close>, \<open>pause\<close>, frames, \<open>setTimeScale\<close>,
  \<open>setDeviceState\<close>, \<open>setDeviceFault\<close>, \<open>clearDeviceFault\<close>, \<open>reset\<close>, \<open>dispose\<close>) in which
  \<open>setDeviceState\<close> moves this device neither into nor out of \<open>faulted\<close>, and \<open>reset\<close> and
  \<open>dispose\<close> are not applied while it is faulted.
\<close>

theorem fault_invariant_preserved:
  "map faultReason (devices (layout (setDeviceState deviceId st e)))
     = map faultReason (devices (layout e)) \<and>
   map state (devices (layout (setDeviceState deviceId st e)))
     = (case getNode (graph e) deviceId of
          None \<Rightarrow> map state (devices (layout e))
        | Some node \<Rightarrow> (map state (devices (layout e)))[device_ref node := st]) \<and>
   map state (devices (layout (reset e)))
     = map (\<lambda>s. if s = Faulted then Stopped else s) (map state (devices (layout e))) \<and>
   (i < length (devices (layout e)) \<longrightarrow> fault_invariant (devices (layout e) ! i) \<longrightarrow>
    faultSafeOps e i ops \<longrightarrow> fault_invariant (devices (layout (runOps e ops)) ! i))"
  using setDeviceState_faultReason [of deviceId st e] setDeviceState_state [of deviceId st e]
    reset_state [of e] runOps_fault_invariant [of i e ops]
  by blast

theorem fault_invariant_preserved_witness:
  "1 < length (devices (layout testEngine)) \<and>
   fault_invariant (devices (layout testEngine) ! 1) \<and>
   faultSafeOps testEngine 1 faultCycleOps \<and>
   fault_invariant (devices (layout (runOps testEngine faultCycleOps)) ! 1) \<and>
   map faultReason
     (devices (layout (setDeviceState ''conveyor-1'' Stopped
        (setDeviceFault ''conveyor-1'' ''Motor jam'' testEngine))))
     = [None, Some ''Motor jam'', None] \<and>
   map state
     (devices (layout (setDeviceState ''conveyor-1'' Stopped
        (setDeviceFault ''conveyor-1'' ''Motor jam'' testEngine))))
     = [Running, Stopped, Running] \<and>
   map state (devices (layout (reset (setDeviceFault ''conveyor-1'' ''Motor jam'' testEngine))))
     = [Running, Stopped, Running]"
proof -
  let ?e = "setDeviceFault ''conveyor-1'' ''Motor jam'' testEngine"
  have b: "1 < length (devices (layout testEngine))"
    by (simp add: testEngine_eq createTestLayout_def)
  have c: "fault_invariant (devices (layout testEngine) ! 1)"
    by (simp add: testEngine_eq createTestLayout_def fault_invariant_def)
  have d: "faultSafeOps testEngine 1 faultCycleOps"
    by (simp add: faultCycleOps_def testEngine_eq engine_eval cong: eval_cong)
  have f: "map faultReason (devices (layout ?e)) = [None, Some ''Motor jam'', None]"
    by (simp add: testEngine_eq engine_eval cong: eval_cong)
  have g: "getNode (graph ?e) ''conveyor-1'' = Some conveyorNode"
    by (simp add: testEngine_eq engine_eval conveyorNode_def cong: eval_cong)
  have h: "map state (devices (layout ?e)) = [Running, Faulted, Running]"
    by (simp add: testEngine_eq engine_eval cong: eval_cong)
  have r: "device_ref conveyorNode = 1"
    by (simp add: conveyorNode_def)
  from fault_invariant_preserved [of "''conveyor-1''" Stopped ?e 1 faultCycleOps]
    fault_invariant_preserved [of "''conveyor-1''" Running testEngine 1 faultCycleOps]
    b c d f g h r
  show ?thesis by simp
qed

text \<open>
  C1 as stated fails: \<open>setDeviceState(id, faulted)\<close> leaves a faulted device without a fault
  reason; \<open>setDeviceState(id, running)\<close> on a faulted device, and \<open>reset\<close> while a device is
  faulted, leave a fault reason on a device that is no longer faulted.
\<close>

theorem setDeviceState_breaks_fault_invariant:
  "fault_invariant (devices (layout testEngine) ! 1) \<and>
   \<not> fault_invariant
        (devices (layout (runOps testEngine [SetDeviceState ''conveyor-1'' Faulted])) ! 1) \<and>
   fault_invariant
     (devices (layout (runOps testEngine [SetDeviceFault ''conveyor-1'' ''Motor jam''])) ! 1) \<and>
   \<not> fault_invariant
        (devices (layout (runOps testEngine
           [SetDeviceFault ''conveyor-1'' ''Motor jam'',
            SetDeviceState ''conveyor-1'' Running])) ! 1) \<and>
   \<not> fault_invariant
        (devices (layout (runOps testEngine
           [SetDeviceFault ''conveyor-1'' ''Motor jam'', Reset])) ! 1)"
  by (simp add: runOps_def testEngine_eq engine_eval fault_invariant_def cong: eval_cong)

section \<open>Token ids\<close>

lemma digit_inj:
  assumes "a < 10" "b < 10" "''0123456789'' ! a = ''0123456789'' ! b"
  shows "a = b"
proof -
  have "distinct ''0123456789''" by simp
  moreover have "a < length ''0123456789''" "b < length ''0123456789''"
    using assms(1,2) by simp_all
  ultimately show ?thesis using assms(3) by (simp only: nth_eq_iff_index_eq)
qed

lemma string_of_nat_nonempty: "string_of_nat n \<noteq> []"
  by (subst string_of_nat.simps) simp

lemma string_of_nat_last: "last (string_of_nat n) = ''0123456789'' ! (n mod 10)"
  by (subst string_of_nat.simps) simp

lemma string_of_nat_butlast:
  "butlast (string_of_nat n) = (if n < 10 then [] else string_of_nat (n div 10))"
  by (subst string_of_nat.simps) simp

lemma string_of_nat_inj: "string_of_nat m = string_of_nat n \<Longrightarrow> m = n"
proof (induction m arbitrary: n rule: less_induct)
  case (less m)
  have l: "m mod 10 = n mod 10"
    using arg_cong [OF less.prems, of last]
    by (auto simp: string_of_nat_last intro: digit_inj)
  have b: "butlast (string_of_nat m) = butlast (string_of_nat n)"
    using less.prems by simp
  show ?case
  proof (cases "m < 10")
    case True
    then have "n < 10" using b string_of_nat_nonempty [of "n div 10"]
      by (auto simp: string_of_nat_butlast split: if_splits)
    with True l show ?thesis by simp
  next
    case False
    then have n: "\<not> n < 10" using b string_of_nat_nonempty [of "m div 10"]
      by (auto simp: string_of_nat_butlast split: if_splits)
    with False b have "string_of_nat (m div 10) = string_of_nat (n div 10)"
      by (simp add: string_of_nat_butlast)
    moreover have "m div 10 < m" using False by simp
    ultimately have "m div 10 = n div 10" by (rule less.IH [rotated])
    with l show ?thesis by (metis div_mult_mod_eq)
  qed
qed

lemma tokenName_inj: "inj tokenName"
  by (rule injI) (simp add: tokenName_def string_of_nat_inj)

lemma createdTokens_append: "createdTokens (xs @ ys) = createdTokens xs @ createdTokens ys"
  by (induction xs rule: createdTokens.induct) simp_all

lemma createdTokens_removed: "createdTokens (map TokenRemoved ts) = []"
  by (induction ts) simp_all

lemma mints_refl: "mints e e"
  by (simp add: mints_def eventsSince_def)

lemma mints_trans:
  assumes "mints a b" "mints b c"
  shows "mints a c"
proof -
  let ?n = "length (emitted a)" and ?m = "length (emitted b)"
  from assms have le: "?n \<le> ?m" "?m \<le> length (emitted c)"
    and tk: "take ?n (emitted b) = emitted a" "take ?m (emitted c) = emitted b"
    and ct: "tokenIdCounter a \<le> tokenIdCounter b" "tokenIdCounter b \<le> tokenIdCounter c"
    and ia: "map tok_id (createdTokens (drop ?n (emitted b)))
        = map tokenName [Suc (tokenIdCounter a) ..< Suc (tokenIdCounter b)]"
    and ib: "map tok_id (createdTokens (drop ?m (emitted c)))
        = map tokenName [Suc (tokenIdCounter b) ..< Suc (tokenIdCounter c)]"
    by (simp_all add: mints_def eventsSince_def)
  have c_eq: "emitted c = emitted b @ drop ?m (emitted c)"
    using tk(2) by (metis append_take_drop_id)
  have t: "take ?n (emitted c) = emitted a"
    using tk(1) le(1) by (subst c_eq) simp
  have d: "drop ?n (emitted c) = drop ?n (emitted b) @ drop ?m (emitted c)"
    using le(1) by (subst c_eq) simp
  have u: "[Suc (tokenIdCounter a) ..< Suc (tokenIdCounter c)]
      = [Suc (tokenIdCounter a) ..< Suc (tokenIdCounter b)]
        @ [Suc (tokenIdCounter b) ..< Suc (tokenIdCounter c)]"
    using ct by (metis Suc_le_mono upt_add_eq_append le_Suc_ex)
  show ?thesis
    unfolding mints_def eventsSince_def
    using le t ct by (simp add: d createdTokens_append ia ib u del: upt_Suc)
qed

lemma mints_extend:
  assumes "emitted e' = emitted e @ evs" "tokenIdCounter e' = tokenIdCounter e"
    "createdTokens evs = []"
  shows "mints e e'"
  using assms by (simp add: mints_def eventsSince_def)

lemma processSource_mints: "mints e (processSource dt e d)"
  by (simp add: processSource_def Let_def mints_def eventsSince_def createToken_def
      generateTokenId_def tokenName_def split: DeviceKind.splits)

lemma foldl_processSource_mints: "mints e (foldl (processSource dt) e ds)"
proof (induction ds arbitrary: e)
  case Nil
  show ?case by (simp add: mints_refl)
next
  case (Cons d ds)
  have "mints e (processSource dt e d)" by (rule processSource_mints)
  moreover have "mints (processSource dt e d) (foldl (processSource dt) (processSource dt e d) ds)"
    by (rule Cons.IH)
  ultimately show ?case using mints_trans by simp
qed

lemma updateTokenStep_created:
  "createdTokens (snd (snd (updateTokenStep g devs dt sc acc tok)))
     = createdTokens (snd (snd acc))"
  by (simp add: updateTokenStep_def Let_def createdTokens_append
      split: prod.splits option.splits)

lemma foldl_updateTokenStep_created:
  "createdTokens (snd (snd (foldl (updateTokenStep g devs dt sc) acc toks)))
     = createdTokens (snd (snd acc))"
  by (induction toks arbitrary: acc) (simp_all add: updateTokenStep_created)

lemma updateTokens_mints: "mints e (updateTokens dt e)"
proof -
  obtain rm upd evs where f: "foldl (updateTokenStep (graph e) (devices (layout e)) dt
      (timeScale (config e))) ([], [], []) (tokens e) = (rm, upd, evs)"
    by (metis prod_cases3)
  have "createdTokens evs = []"
    using foldl_updateTokenStep_created [of "graph e" "devices (layout e)" dt
        "timeScale (config e)" "([], [], [])" "tokens e"] f by simp
  then have 1: "createdTokens (evs @ map TokenRemoved rm) = []"
    by (simp add: createdTokens_append createdTokens_removed)
  have 2: "emitted (updateTokens dt e) = emitted e @ evs @ map TokenRemoved rm"
    using f by (simp add: updateTokens_def)
  have 3: "tokenIdCounter (updateTokens dt e) = tokenIdCounter e"
    using f by (simp add: updateTokens_def)
  from 2 3 1 show ?thesis by (rule mints_extend)
qed

lemma tick_mints: "mints e (tick t e)"
proof (cases "status e = SimRunning")
  case False
  then show ?thesis by (simp add: tick_def mints_refl)
next
  case True
  define dt where "dt = (t - lastFrameTime e) / 1000"
  define e1 where "e1 = e\<lparr>lastFrameTime := t,
      elapsedTime := elapsedTime e + dt * timeScale (config e)\<rparr>"
  define e2 where "e2 = processSourceDevices dt e1"
  define e3 where "e3 = updateTokens dt e2"
  have t: "tick t e = scheduleFrame (emit (TickEvent dt (elapsedTime e3) (length (tokens e3))) e3)"
    using True by (simp add: tick_def Let_def dt_def e1_def e2_def e3_def)
  have "mints e e1" by (rule mints_extend [where evs = "[]"]) (simp_all add: e1_def)
  moreover have "mints e1 e2"
    unfolding e2_def processSourceDevices_def by (rule foldl_processSource_mints)
  moreover have "mints e2 e3" unfolding e3_def by (rule updateTokens_mints)
  moreover have "mints e3 (tick t e)"
    unfolding t
    by (rule mints_extend [where evs = "[TickEvent dt (elapsedTime e3) (length (tokens e3))]"])
       (simp_all add: scheduleFrame_def emit_def)
  ultimately show ?thesis by (blast intro: mints_trans)
qed

lemma applyOp_mints:
  assumes "op \<noteq> Reset" "op \<noteq> Dispose"
  shows "mints e (applyOp e op)"
proof (cases op)
  case (Play now)
  show ?thesis
  proof (cases "status e = SimRunning")
    case True
    then show ?thesis using Play by (simp add: play_def mints_refl)
  next
    case False
    then show ?thesis
      unfolding Play
      by (intro mints_extend [where evs = "[StatusChange (status e) SimRunning]"])
         (simp_all add: play_def Let_def emit_def scheduleFrame_def initializeSourceTimers_def)
  qed
next
  case Pause
  show ?thesis
  proof (cases "status e = SimRunning")
    case False
    then show ?thesis using Pause by (simp add: pause_def mints_refl)
  next
    case True
    then show ?thesis
      unfolding Pause
      by (intro mints_extend [where evs = "[StatusChange SimRunning SimPaused]"])
         (simp_all add: pause_def Let_def emit_def cancelFrame_def)
  qed
next
  case (Tick t)
  then show ?thesis by (simp add: tick_mints)
next
  case (SetTimeScale s)
  then show ?thesis
    by (simp add: setTimeScale_def mints_extend [where evs = "[]"])
next
  case (SetDeviceState k st)
  show ?thesis
  proof (cases "getNode (graph e) k")
    case None
    then show ?thesis using SetDeviceState by (simp add: setDeviceState_def mints_refl)
  next
    case (Some node)
    then show ?thesis
      unfolding SetDeviceState
      by (intro mints_extend [where evs = "[DeviceStateChange k (state (nodeDevice e node)) st None]"])
         (simp_all add: setDeviceState_def Let_def emit_def mutateDevice_def)
  qed
next
  case (SetDeviceFault k r)
  show ?thesis
  proof (cases "getNode (graph e) k")
    case None
    then show ?thesis using SetDeviceFault by (simp add: setDeviceFault_def mints_refl)
  next
    case (Some node)
    then show ?thesis
      unfolding SetDeviceFault
      by (intro mints_extend
            [where evs = "[DeviceStateChange k (state (nodeDevice e node)) Faulted (Some r)]"])
         (simp_all add: setDeviceFault_def Let_def emit_def mutateDevice_def)
  qed
next
  case (ClearDeviceFault k)
  show ?thesis
  proof (cases "\<exists>node. getNode (graph e) k = Some node \<and> state (nodeDevice e node) = Faulted")
    case False
    then show ?thesis
      using ClearDeviceFault by (auto simp: clearDeviceFault_def mints_refl split: option.splits)
  next
    case True
    then show ?thesis
      unfolding ClearDeviceFault
      by (intro mints_extend [where evs = "[DeviceStateChange k Faulted Stopped None]"])
         (auto simp: clearDeviceFault_def Let_def emit_def mutateDevice_def)
  qed
next
  case (UpdateLayout l)
  then show ?thesis
    by (simp add: updateLayout_def mints_extend [where evs = "[]"])
qed (use assms in simp_all)

lemma runOps_mints:
  "Reset \<notin> set ops \<Longrightarrow> Dispose \<notin> set ops \<Longrightarrow> mints e (runOps e ops)"
proof (induction ops arbitrary: e)
  case Nil
  show ?case by (simp add: runOps_def mints_refl)
next
  case (Cons op ops)
  then have "mints e (applyOp e op)" by (intro applyOp_mints) auto
  moreover have "mints (applyOp e op) (runOps (applyOp e op) ops)"
    using Cons by simp
  ultimately show ?case using mints_trans by (simp add: runOps_def)
qed

text \<open>
  C3 (as amended): over any sequence of engine operations that contains no \<open>reset\<close> (and
  no \<open>dispose\<close>, which resets), the tokens the engine creates carry, in creation order, the
  ids numbered consecutively from the counter's starting value: the ids increase and any
  two of them are distinct.
\<close>

theorem token_ids_unique_between_resets:
  "Reset \<notin> set ops \<Longrightarrow> Dispose \<notin> set ops \<Longrightarrow>
   map tok_id (createdTokens (eventsSince e (runOps e ops)))
     = map tokenName [Suc (tokenIdCounter e) ..< Suc (tokenIdCounter (runOps e ops))] \<and>
   distinct (map tok_id (createdTokens (eventsSince e (runOps e ops))))"
proof -
  assume "Reset \<notin> set ops" "Dispose \<notin> set ops"
  then have "mints e (runOps e ops)" by (rule runOps_mints)
  then have m: "map tok_id (createdTokens (eventsSince e (runOps e ops)))
     = map tokenName [Suc (tokenIdCounter e) ..< Suc (tokenIdCounter (runOps e ops))]"
    by (simp add: mints_def)
  have "distinct (map tokenName [Suc (tokenIdCounter e) ..< Suc (tokenIdCounter (runOps e ops))])"
    using tokenName_inj by (simp add: distinct_map inj_on_def inj_def del: upt_Suc)
  with m show ?thesis by simp
qed

theorem token_ids_unique_between_resets_witness:
  "Reset \<notin> set threeFramesOps \<and> Dispose \<notin> set threeFramesOps \<and>
   map tok_id (createdTokens (eventsSince testEngine (runOps testEngine threeFramesOps)))
     = [''token-1'', ''token-2''] \<and>
   distinct (map tok_id (createdTokens (eventsSince testEngine (runOps testEngine threeFramesOps))))"
proof -
  have a: "Reset \<notin> set threeFramesOps" and b: "Dispose \<notin> set threeFramesOps"
    by (simp_all add: threeFramesOps_def)
  have c: "tokenIdCounter (runOps testEngine threeFramesOps) = 2"
    by (simp add: threeFramesOps_def runOps_def testEngine_eq engine_eval cong: eval_cong)
  have d: "tokenIdCounter testEngine = 0" by (simp add: testEngine_eq)
  have e: "map tokenName [Suc 0 ..< Suc 2] = [''token-1'', ''token-2'']"
    by (simp add: tokenName_def string_of_nat.simps upt_rec)
  from token_ids_unique_between_resets [OF a b, of testEngine] a b c d e
  show ?thesis by simp
qed

text \<open>
  C3 as stated fails: \<open>reset\<close> sets the counter back to 0, so the first token created
  after it carries the id of the first token created before it.
\<close>

theorem token_id_reused_after_reset:
  "map tok_id (createdTokens (eventsSince testEngine (runOps testEngine twoRunsOps)))
     = [''token-1'', ''token-1''] \<and>
   \<not> distinct (map tok_id (createdTokens (eventsSince testEngine (runOps testEngine twoRunsOps))))"
proof -
  have "map tok_id (createdTokens (eventsSince testEngine (runOps testEngine twoRunsOps)))
     = [''token-1'', ''token-1'']"
    by (simp add: twoRunsOps_def runOps_def eventsSince_def testEngine_eq engine_eval
        cong: eval_cong)
  then show ?thesis by simp
qed

section \<open>Token generation by a source\<close>

text \<open>
  C2: the source of the test layout is running with rate 2, so its interval is 1/2 s.
  After \<open>play\<close> at time 0, one frame at 1000 ms simulates \<open>T = 1\<close> s, more than the interval,
  and the engine creates one token where \<open>floor (T * R) = 2\<close>: a frame spawns at most one
  token per source, and \<open>newTimer % interval\<close> leaves timer 0, dropping the second interval
  the frame spanned. At time scale 4, four frames 250 ms apart simulate 4 s and create four
  tokens where \<open>floor (4 * 2) = 8\<close>. Every number of the two runs is a binary fraction, so
  the arithmetic is the same in floating point.
\<close>

theorem long_frame_creates_one_token:
  "status playedEngine = SimRunning \<and>
   dev_id (devices (layout playedEngine) ! 0) = ''source-1'' \<and>
   kind (devices (layout playedEngine) ! 0) = Source 2 \<and>
   state (devices (layout playedEngine) ! 0) = Running \<and>
   sourceTimers playedEngine ''source-1'' = Some 0 \<and>
   elapsedTime playedEngine = 0 \<and>
   elapsedTime (runOps playedEngine [Tick 1000]) = 1 \<and>
   sourceTimers (runOps playedEngine [Tick 1000]) ''source-1'' = Some 0 \<and>
   createdAt ''source-1'' (eventsSince playedEngine (runOps playedEngine [Tick 1000])) = 1 \<and>
   \<lfloor>elapsedTime (runOps playedEngine [Tick 1000]) * 2\<rfloor> = 2 \<and>
   status fastEngine = SimRunning \<and>
   timeScale (config fastEngine) = 4 \<and>
   elapsedTime fastEngine = 0 \<and>
   elapsedTime (runOps fastEngine [Tick 250, Tick 500, Tick 750, Tick 1000]) = 4 \<and>
   createdAt ''source-1''
     (eventsSince fastEngine (runOps fastEngine [Tick 250, Tick 500, Tick 750, Tick 1000])) = 4 \<and>
   \<lfloor>elapsedTime (runOps fastEngine [Tick 250, Tick 500, Tick 750, Tick 1000]) * 2\<rfloor> = 8"
proof -
  have a: "status playedEngine = SimRunning"
    "dev_id (devices (layout playedEngine) ! 0) = ''source-1''"
    "kind (devices (layout playedEngine) ! 0) = Source 2"
    "state (devices (layout playedEngine) ! 0) = Running"
    "sourceTimers playedEngine ''source-1'' = Some 0"
    "elapsedTime playedEngine = 0"
    by (simp_all add: playedEngine_def testEngine_eq engine_eval cong: eval_cong)
  have b: "elapsedTime (runOps playedEngine [Tick 1000]) = 1"
    by (simp add: playedEngine_def testEngine_eq engine_eval runOps_def cong: eval_cong)
  have c: "sourceTimers (runOps playedEngine [Tick 1000]) ''source-1'' = Some 0"
    by (simp add: playedEngine_def testEngine_eq engine_eval runOps_def cong: eval_cong)
  have d: "createdAt ''source-1'' (eventsSince playedEngine (runOps playedEngine [Tick 1000])) = 1"
    by (simp add: playedEngine_def testEngine_eq engine_eval runOps_def eventsSince_def
        createdAt_def cong: eval_cong)
  have f: "status fastEngine = SimRunning" "timeScale (config fastEngine) = 4"
    "elapsedTime fastEngine = 0"
    by (simp_all add: fastEngine_def testEngine_eq setTimeScale_def engine_eval cong: eval_cong)
  have g: "elapsedTime (runOps fastEngine [Tick 250, Tick 500, Tick 750, Tick 1000]) = 4"
    by (simp add: fastEngine_def testEngine_eq setTimeScale_def engine_eval runOps_def cong: eval_cong)
  have h: "createdAt ''source-1''
     (eventsSince fastEngine (runOps fastEngine [Tick 250, Tick 500, Tick 750, Tick 1000])) = 4"
    by (simp add: fastEngine_def testEngine_eq setTimeScale_def engine_eval runOps_def eventsSince_def
        createdAt_def cong: eval_cong)
  show ?thesis unfolding b g using a c d f h by simp
qed

section \<open>Shortest paths by breadth-first search\<close>

lemma walk_left:
  "walk g b n c \<Longrightarrow> b \<in> set (getConnectedOutputs g a) \<Longrightarrow> walk g a (Suc n) c"
proof (induction rule: walk.induct)
  case walk0
  have "walk g a 0 a" by (rule walk.walk0)
  then show ?case using walk0 by (rule walk.walkS)
next
  case (walkS n b' c)
  then show ?case by (blast intro: walk.walkS)
qed

lemma validPath_walk: "validPath g p \<Longrightarrow> walk g (hd p) (length p - 1) (last p)"
proof (induction g p rule: validPath.induct)
  case (1 g)
  then show ?case by simp
next
  case (2 g a)
  show ?case by (simp add: walk0)
next
  case (3 g a b rest)
  from 3(2) have e: "b \<in> set (getConnectedOutputs g a)" and v: "validPath g (b # rest)"
    by simp_all
  from 3(1) [OF v] have "walk g b (length rest) (last (b # rest))" by simp
  from walk_left [OF this e] show ?case by simp
qed

lemma validPath_snoc:
  "validPath g p \<Longrightarrow> c \<in> set (getConnectedOutputs g (last p)) \<Longrightarrow> validPath g (p @ [c])"
  by (induction g p rule: validPath.induct) simp_all

lemma scanOutputs_Inl:
  "scanOutputs t path outs (V, Q) = Inl p \<Longrightarrow> p = path @ [t] \<and> t \<in> set outs"
  by (induction outs arbitrary: V Q) (auto split: if_splits)

lemma scanOutputs_Inr:
  "scanOutputs t path outs (V, Q) = Inr (V', Q') \<Longrightarrow>
   t \<notin> set outs \<and> V' = V \<union> set outs \<and>
   (\<exists>news. Q' = Q @ map (\<lambda>x. (x, path @ [x])) news \<and> set news = set outs - V)"
proof (induction outs arbitrary: V Q)
  case Nil
  then show ?case by simp
next
  case (Cons x outs)
  show ?case
  proof (cases "x \<notin> V")
    case True
    with Cons.prems have ne: "x \<noteq> t"
      and r: "scanOutputs t path outs (insert x V, Q @ [(x, path @ [x])]) = Inr (V', Q')"
      by (auto split: if_splits)
    from Cons.IH [OF r] obtain news where
      n: "t \<notin> set outs" "V' = insert x V \<union> set outs"
        "Q' = (Q @ [(x, path @ [x])]) @ map (\<lambda>x. (x, path @ [x])) news"
        "set news = set outs - insert x V"
      by blast
    have "Q' = Q @ map (\<lambda>x. (x, path @ [x])) (x # news)" using n(3) by simp
    moreover have "set (x # news) = set (x # outs) - V" using n(4) True by auto
    ultimately have "\<exists>news. Q' = Q @ map (\<lambda>x. (x, path @ [x])) news \<and>
        set news = set (x # outs) - V" by blast
    then show ?thesis using n(1,2) ne by simp
  next
    case False
    with Cons.prems have ne: "x \<noteq> t"
      and r: "scanOutputs t path outs (V, Q) = Inr (V', Q')"
      by (auto split: if_splits)
    from Cons.IH [OF r] obtain news where
      n: "t \<notin> set outs" "V' = V \<union> set outs"
        "Q' = Q @ map (\<lambda>x. (x, path @ [x])) news" "set news = set outs - V"
      by blast
    have "set news = set (x # outs) - V" using n(4) False by auto
    then show ?thesis using n(1,2,3) ne False by auto
  qed
qed

lemma bfs_frontier:
  assumes inv: "bfs_inv g a t V Q"
  shows "walk g a n w \<Longrightarrow> w \<notin> V \<Longrightarrow> \<exists>vp \<in> set Q. length (snd vp) \<le> n"
proof (induction rule: walk.induct)
  case walk0
  then show ?case using inv by (simp add: bfs_inv_def)
next
  case (walkS n b c)
  show ?case
  proof (cases "b \<in> V")
    case False
    then obtain vp where "vp \<in> set Q" "length (snd vp) \<le> n" using walkS.IH by blast
    then show ?thesis by (intro bexI [of _ vp]) simp_all
  next
    case True
    show ?thesis
    proof (cases "b \<in> fst ` set Q")
      case True
      then obtain vp where vp: "vp \<in> set Q" "fst vp = b" by auto
      then have "length (snd vp) \<le> Suc n"
        using inv walkS.hyps(1) by (auto simp: bfs_inv_def)
      then show ?thesis using vp by blast
    next
      case False
      then have "set (getConnectedOutputs g b) \<subseteq> V"
        using inv \<open>b \<in> V\<close> by (auto simp: bfs_inv_def)
      then show ?thesis using walkS.hyps(2) walkS.prems by blast
    qed
  qed
qed

lemma bfs_inv_step:
  assumes inv: "bfs_inv g a t V ((v0, p0) # Q)"
    and outs: "outs = getConnectedOutputs g v0"
    and t: "t \<notin> set outs"
    and V': "V' = V \<union> set outs"
    and Q': "Q' = Q @ map (\<lambda>x. (x, p0 @ [x])) news"
    and news: "set news = set outs - V"
  shows "bfs_inv g a t V' Q'"
proof -
  from inv have aV: "a \<in> V" and tV: "t \<notin> V"
    and p0: "validPath g p0" "hd p0 = a" "last p0 = v0" "v0 \<in> V"
    and ent: "\<forall>vp \<in> set Q. validPath g (snd vp) \<and> hd (snd vp) = a \<and> last (snd vp) = fst vp \<and>
          fst vp \<in> V \<and> (\<forall>k. walk g a k (fst vp) \<longrightarrow> length (snd vp) \<le> Suc k)"
    and srt: "sorted (map (\<lambda>vp. length (snd vp)) Q)"
    and hd_min: "\<forall>vp \<in> set Q. length p0 \<le> length (snd vp)"
    and bnd0: "\<forall>vp \<in> set Q. length (snd vp) \<le> Suc (length p0)"
    and closed: "\<forall>x \<in> V. x \<notin> fst ` set ((v0, p0) # Q) \<longrightarrow> set (getConnectedOutputs g x) \<subseteq> V"
    by (auto simp: bfs_inv_def)
  have p0ne: "p0 \<noteq> []" using p0(1) by (cases p0) simp_all
  have new_short: "length p0 \<le> k" if "x \<in> set news" "walk g a k x" for x k
  proof -
    have "x \<notin> V" using that(1) news by auto
    from bfs_frontier [OF inv that(2) this]
    obtain vp where "vp \<in> set ((v0, p0) # Q)" "length (snd vp) \<le> k" by blast
    then show ?thesis using hd_min by auto
  qed
  have new_ok: "validPath g (p0 @ [x]) \<and> hd (p0 @ [x]) = a \<and> last (p0 @ [x]) = x \<and> x \<in> V' \<and>
      (\<forall>k. walk g a k x \<longrightarrow> length (p0 @ [x]) \<le> Suc k)" if "x \<in> set news" for x
  proof -
    have x: "x \<in> set (getConnectedOutputs g v0)" using that news outs by auto
    then have "validPath g (p0 @ [x])" using p0(1,3) by (intro validPath_snoc) simp_all
    moreover have "hd (p0 @ [x]) = a" using p0ne p0(2) by simp
    moreover have "x \<in> V'" using x V' outs by simp
    ultimately show ?thesis using new_short [OF that] by simp
  qed
  have 1: "a \<in> V'" using aV V' by simp
  have 2: "t \<notin> V'" using tV t V' by simp
  have 3: "\<forall>vp \<in> set Q'. validPath g (snd vp) \<and> hd (snd vp) = a \<and> last (snd vp) = fst vp \<and>
          fst vp \<in> V' \<and> (\<forall>k. walk g a k (fst vp) \<longrightarrow> length (snd vp) \<le> Suc k)"
  proof
    fix vp assume "vp \<in> set Q'"
    then consider "vp \<in> set Q" | x where "x \<in> set news" "vp = (x, p0 @ [x])"
      unfolding Q' by auto
    then show "validPath g (snd vp) \<and> hd (snd vp) = a \<and> last (snd vp) = fst vp \<and>
          fst vp \<in> V' \<and> (\<forall>k. walk g a k (fst vp) \<longrightarrow> length (snd vp) \<le> Suc k)"
    proof cases
      case 1
      then show ?thesis using ent V' by auto
    next
      case 2
      then show ?thesis using new_ok [OF 2(1)] by simp
    qed
  qed
  have c: "sorted (map (\<lambda>x. Suc (length p0)) news)" by (induction news) auto
  have 4: "sorted (map (\<lambda>vp. length (snd vp)) Q')"
    unfolding Q' using srt bnd0 c by (auto simp: sorted_append o_def)
  have 5: "\<forall>vp \<in> set Q'. \<forall>vp' \<in> set Q'. length (snd vp') \<le> Suc (length (snd vp))"
  proof (intro ballI)
    fix vp vp' assume "vp \<in> set Q'" "vp' \<in> set Q'"
    then have "length p0 \<le> length (snd vp)" "length (snd vp') \<le> Suc (length p0)"
      unfolding Q' using hd_min bnd0 by auto
    then show "length (snd vp') \<le> Suc (length (snd vp))" by simp
  qed
  have 6: "\<forall>x \<in> V'. x \<notin> fst ` set Q' \<longrightarrow> set (getConnectedOutputs g x) \<subseteq> V'"
  proof (intro ballI impI)
    fix x assume x: "x \<in> V'" "x \<notin> fst ` set Q'"
    have notnew: "x \<notin> set news" using x(2) unfolding Q' by force
    then have xV: "x \<in> V" using x(1) V' news by auto
    show "set (getConnectedOutputs g x) \<subseteq> V'"
    proof (cases "x = v0")
      case True
      then show ?thesis using V' outs by auto
    next
      case False
      then have "x \<notin> fst ` set ((v0, p0) # Q)" using x(2) unfolding Q' by auto
      then show ?thesis using closed xV V' by blast
    qed
  qed
  show ?thesis unfolding bfs_inv_def using 1 2 3 4 5 6 by blast
qed

lemma bfsLoop_correct:
  "bfs_inv g a t V Q \<Longrightarrow>
   (case bfsLoop g t V Q of
      Some p \<Rightarrow> pathFromTo g a t p \<and> (\<forall>q. pathFromTo g a t q \<longrightarrow> length p \<le> length q)
    | None \<Rightarrow> (\<forall>q. \<not> pathFromTo g a t q))"
proof (induction g t V Q rule: bfsLoop.induct)
  case (1 nodes toId visited)
  have "\<not> pathFromTo nodes a toId q" for q
  proof
    assume "pathFromTo nodes a toId q"
    then have "walk nodes a (length q - 1) toId"
      using validPath_walk [of nodes q] by (simp add: pathFromTo_def)
    moreover have "toId \<notin> visited" using 1 by (simp add: bfs_inv_def)
    ultimately show False using bfs_frontier [OF 1] by fastforce
  qed
  then show ?case by simp
next
  case (2 nodes toId visited nodeId path queue)
  note inv = "2.prems"
  have hd_min: "\<forall>vp \<in> set ((nodeId, path) # queue). length path \<le> length (snd vp)"
    using inv by (auto simp: bfs_inv_def)
  show ?case
  proof (cases "map_of nodes nodeId")
    case None
    then have o: "[] = getConnectedOutputs nodes nodeId" by (simp add: getConnectedOutputs_def)
    have "bfs_inv nodes a toId visited queue"
      by (rule bfs_inv_step [OF inv o, where news = "[]"]) simp_all
    from "2.IH"(1) [OF None this] show ?thesis using None by simp
  next
    case (Some currentNode)
    then have o: "outputs currentNode = getConnectedOutputs nodes nodeId"
      by (simp add: getConnectedOutputs_def)
    show ?thesis
    proof (cases "scanOutputs toId path (outputs currentNode) (visited, queue)")
      case (Inl found)
      from scanOutputs_Inl [OF Inl] have f: "found = path @ [toId]"
        and e: "toId \<in> set (getConnectedOutputs nodes nodeId)" using o by simp_all
      from inv have p: "validPath nodes path" "hd path = a" "last path = nodeId"
        and tV: "toId \<notin> visited"
        by (auto simp: bfs_inv_def)
      have pne: "path \<noteq> []" using p(1) by (cases path) simp_all
      have "validPath nodes found" unfolding f using p e by (intro validPath_snoc) simp_all
      then have 1: "pathFromTo nodes a toId found"
        using p(2) pne by (simp add: pathFromTo_def f)
      have 2: "length found \<le> length q" if "pathFromTo nodes a toId q" for q
      proof -
        have w: "walk nodes a (length q - 1) toId"
          using that validPath_walk [of nodes q] by (simp add: pathFromTo_def)
        from bfs_frontier [OF inv w tV]
        obtain vp where "vp \<in> set ((nodeId, path) # queue)" "length (snd vp) \<le> length q - 1"
          by blast
        then have "length path \<le> length q - 1" using hd_min by fastforce
        moreover have "q \<noteq> []" using that by (auto simp: pathFromTo_def)
        ultimately show ?thesis unfolding f by (cases q) simp_all
      qed
      show ?thesis using Some Inl 1 2 by simp
    next
      case (Inr vq)
      obtain visited' queue' where vq: "vq = (visited', queue')" by (cases vq)
      from scanOutputs_Inr [OF Inr [unfolded vq]] obtain news where
        n: "toId \<notin> set (outputs currentNode)" "visited' = visited \<union> set (outputs currentNode)"
          "queue' = queue @ map (\<lambda>x. (x, path @ [x])) news"
          "set news = set (outputs currentNode) - visited"
        by blast
      have "bfs_inv nodes a toId visited' queue'"
        by (rule bfs_inv_step [OF inv o n])
      from "2.IH"(2) [OF Some Inr [unfolded vq] refl this] show ?thesis
        using Some Inr vq by simp
    qed
  qed
qed

text \<open>
  C5: \<open>getPath(from, to)\<close> returns \<open>[from]\<close> when the two ids are equal; otherwise it
  returns a list of ids that starts at \<open>from\<close>, ends at \<open>to\<close> and follows output edges,
  no longer than any other such list, or null when there is no such list.
\<close>

theorem getPath_shortest:
  "(fromId = toId \<longrightarrow> getPath g fromId toId = Some [fromId]) \<and>
   (fromId \<noteq> toId \<longrightarrow>
      (case getPath g fromId toId of
         Some p \<Rightarrow> pathFromTo g fromId toId p \<and>
                   (\<forall>q. pathFromTo g fromId toId q \<longrightarrow> length p \<le> length q)
       | None \<Rightarrow> (\<forall>q. \<not> pathFromTo g fromId toId q)))"
proof (intro conjI impI)
  show "fromId = toId \<Longrightarrow> getPath g fromId toId = Some [fromId]"
    by (simp add: getPath_def findPath_def)
next
  assume ne: "fromId \<noteq> toId"
  have "walk g fromId k fromId \<longrightarrow> length [fromId] \<le> Suc k" for k by simp
  then have "bfs_inv g fromId toId {fromId} [(fromId, [fromId])]"
    using ne by (simp add: bfs_inv_def)
  from bfsLoop_correct [OF this] show "case getPath g fromId toId of
         Some p \<Rightarrow> pathFromTo g fromId toId p \<and>
                   (\<forall>q. pathFromTo g fromId toId q \<longrightarrow> length p \<le> length q)
       | None \<Rightarrow> (\<forall>q. \<not> pathFromTo g fromId toId q)"
    using ne by (simp add: getPath_def findPath_def)
qed

theorem getPath_shortest_witness:
  "getPath (buildConnectivityGraph createTestLayout) ''sink-1'' ''sink-1'' = Some [''sink-1''] \<and>
   ''source-1'' \<noteq> ''sink-1'' \<and>
   getPath (buildConnectivityGraph createTestLayout) ''source-1'' ''sink-1''
     = Some [''source-1'', ''conveyor-1'', ''sink-1''] \<and>
   pathFromTo (buildConnectivityGraph createTestLayout) ''source-1'' ''sink-1''
     [''source-1'', ''conveyor-1'', ''sink-1''] \<and>
   getPath (buildConnectivityGraph createTestLayout) ''sink-1'' ''source-1'' = None \<and>
   (\<forall>q. \<not> pathFromTo (buildConnectivityGraph createTestLayout) ''sink-1'' ''source-1'' q)"
proof -
  let ?g = "buildConnectivityGraph createTestLayout"
  have a: "getPath ?g ''source-1'' ''sink-1'' = Some [''source-1'', ''conveyor-1'', ''sink-1'']"
    by (simp add: getPath_def findPath_def graph_createTestLayout conveyorNode_def)
  have b: "getPath ?g ''sink-1'' ''source-1'' = None"
    by (simp add: getPath_def findPath_def graph_createTestLayout conveyorNode_def)
  have c: "''source-1'' \<noteq> ''sink-1''" "''sink-1'' \<noteq> ''source-1''" by simp_all
  from getPath_shortest [of "''sink-1''" "''sink-1''" ?g]
    getPath_shortest [of "''source-1''" "''sink-1''" ?g]
    getPath_shortest [of "''sink-1''" "''source-1''" ?g] a b c
  show ?thesis by simp
qed

section \<open>Cycle detection by depth-first search\<close>

lemma finite_graphIds: "finite (graphIds g)"
  by (simp add: graphIds_def allOutputs_def)

lemma edge_target_in_ids: "(a, b) \<in> edges g \<Longrightarrow> b \<in> graphIds g"
  using getConnectedOutputs_allOutputs [of g a] by (auto simp: edges_def graphIds_def)

lemma closed_rtrancl:
  assumes "(x, y) \<in> (edges g)\<^sup>*" "x \<in> B" "\<forall>b \<in> B. \<forall>c. (b, c) \<in> edges g \<longrightarrow> c \<in> B"
  shows "y \<in> B"
  using assms by (induction rule: rtrancl_induct) auto

lemma dfsOutputs_spec:
  assumes dfs_ok: "\<And>V S n. n \<notin> V \<Longrightarrow> n \<in> graphIds g \<Longrightarrow> blackInv g V S \<Longrightarrow>
      \<forall>s \<in> S. (s, n) \<in> (edges g)\<^sup>+ \<Longrightarrow> card (graphIds g - V) \<le> fuel \<Longrightarrow>
      dfsResult g (insert n V) S {n} (dfs fuel g (V, S) n)"
  shows "blackInv g V S \<Longrightarrow> \<forall>s \<in> S. (s, n) \<in> (edges g)\<^sup>* \<Longrightarrow>
     \<forall>x \<in> set os. (n, x) \<in> edges g \<Longrightarrow> card (graphIds g - V) \<le> fuel \<Longrightarrow>
     dfsResult g V S (set os) (dfsOutputs fuel g (V, S) os)"
proof (induction os arbitrary: V)
  case Nil
  then show ?case by (simp add: dfsResult_def)
next
  case (Cons x os)
  have e: "(n, x) \<in> edges g" using Cons.prems(3) by simp
  have rest: "\<forall>x \<in> set os. (n, x) \<in> edges g" using Cons.prems(3) by simp
  show ?case
  proof (cases "x \<in> V")
    case False
    have path: "\<forall>s \<in> S. (s, x) \<in> (edges g)\<^sup>+"
      using Cons.prems(2) e by (auto intro: rtrancl_into_trancl1)
    have r: "dfsResult g (insert x V) S {x} (dfs fuel g (V, S) x)"
      using False edge_target_in_ids [OF e] Cons.prems(1) path Cons.prems(4) by (rule dfs_ok)
    then obtain b V' S' where d: "dfs fuel g (V, S) x = Some (b, V', S')"
      by (auto simp: dfsResult_def split: option.splits)
    show ?thesis
    proof (cases b)
      case True
      then show ?thesis using r d False by (simp add: dfsResult_def)
    next
      case b: False
      have post: "insert x V \<subseteq> V' \<and> S' = S \<and> blackInv g V' S' \<and> {x} \<subseteq> V' - S'"
        using r b unfolding d dfsResult_def by auto
      then have v: "insert x V \<subseteq> V'" and s: "S' = S" by blast+
      from post s have inv: "blackInv g V' S" and xb: "x \<in> V' - S" by blast+
      have "card (graphIds g - V') \<le> card (graphIds g - V)"
        using v finite_graphIds by (intro card_mono) auto
      then have c: "card (graphIds g - V') \<le> fuel" using Cons.prems(4) by simp
      have ih: "dfsResult g V' S (set os) (dfsOutputs fuel g (V', S) os)"
        using inv Cons.prems(2) rest c by (rule Cons.IH)
      have eq: "dfsOutputs fuel g (V, S) (x # os) = dfsOutputs fuel g (V', S) os"
        using False d b s by simp
      show ?thesis
        unfolding eq using ih v xb
        by (auto simp: dfsResult_def blackInv_def split: option.splits if_splits)
    qed
  next
    case True
    show ?thesis
    proof (cases "x \<in> S")
      case xs: True
      then have "(x, n) \<in> (edges g)\<^sup>*" using Cons.prems(2) by simp
      then have "(x, x) \<in> (edges g)\<^sup>+" using e by (rule rtrancl_into_trancl1)
      then have "\<not> acyclic (edges g)" by (auto simp: acyclic_def)
      then show ?thesis using True xs by (simp add: dfsResult_def)
    next
      case xs: False
      have ih: "dfsResult g V S (set os) (dfsOutputs fuel g (V, S) os)"
        using Cons.prems(1,2) rest Cons.prems(4) by (rule Cons.IH)
      have eq: "dfsOutputs fuel g (V, S) (x # os) = dfsOutputs fuel g (V, S) os"
        using True xs by simp
      show ?thesis
        unfolding eq using ih True xs
        by (auto simp: dfsResult_def split: option.splits if_splits)
    qed
  qed
qed

lemma dfs_spec:
  "n \<notin> V \<Longrightarrow> n \<in> graphIds g \<Longrightarrow> blackInv g V S \<Longrightarrow>
   \<forall>s \<in> S. (s, n) \<in> (edges g)\<^sup>+ \<Longrightarrow> card (graphIds g - V) \<le> fuel \<Longrightarrow>
   dfsResult g (insert n V) S {n} (dfs fuel g (V, S) n)"
proof (induction fuel arbitrary: n V S)
  case 0
  have "n \<in> graphIds g - V" using "0.prems"(1,2) by simp
  then have "card (graphIds g - V) \<noteq> 0"
    using finite_graphIds [of g] by (metis card_0_eq finite_Diff empty_iff)
  then have False using "0.prems"(5) by linarith
  then show ?case ..
next
  case (Suc fuel)
  let ?V1 = "insert n V" and ?S1 = "insert n S"
  let ?B = "set (getConnectedOutputs g n)"
  from Suc.prems(3) have SV: "S \<subseteq> V" and VU: "V \<subseteq> graphIds g"
    and closed: "\<forall>b \<in> V - S. \<forall>c. (b, c) \<in> edges g \<longrightarrow> c \<in> V - S"
    and nocyc: "\<forall>b \<in> V - S. (b, b) \<notin> (edges g)\<^sup>+"
    unfolding blackInv_def by blast+
  have nS: "n \<notin> S" using SV Suc.prems(1) by auto
  have black1: "?V1 - ?S1 = V - S" using Suc.prems(1) nS by auto
  have inv1: "blackInv g ?V1 ?S1"
    unfolding blackInv_def black1
  proof (intro conjI)
    show "?S1 \<subseteq> ?V1" using SV by auto
    show "?V1 \<subseteq> graphIds g" using VU Suc.prems(2) by auto
    show "\<forall>b \<in> V - S. \<forall>c. (b, c) \<in> edges g \<longrightarrow> c \<in> V - S" by (rule closed)
    show "\<forall>b \<in> V - S. (b, b) \<notin> (edges g)\<^sup>+" by (rule nocyc)
  qed
  have path1: "\<forall>s \<in> ?S1. (s, n) \<in> (edges g)\<^sup>*"
    using Suc.prems(4) by (auto intro: trancl_into_rtrancl)
  have outs1: "\<forall>x \<in> ?B. (n, x) \<in> edges g" by (simp add: edges_def)
  have "n \<in> graphIds g - V" using Suc.prems(1,2) by simp
  then have "card (graphIds g - ?V1) < card (graphIds g - V)"
    using finite_graphIds [of g] by (intro psubset_card_mono) auto
  then have fuel1: "card (graphIds g - ?V1) \<le> fuel" using Suc.prems(5) by simp
  have r: "dfsResult g ?V1 ?S1 ?B (dfsOutputs fuel g (?V1, ?S1) (getConnectedOutputs g n))"
  proof (rule dfsOutputs_spec)
    show "dfsResult g (insert n' W) T {n'} (dfs fuel g (W, T) n')"
      if "n' \<notin> W" "n' \<in> graphIds g" "blackInv g W T"
        "\<forall>s \<in> T. (s, n') \<in> (edges g)\<^sup>+" "card (graphIds g - W) \<le> fuel" for W T n'
      using that by (rule Suc.IH)
    show "blackInv g ?V1 ?S1" by (rule inv1)
    show "\<forall>s \<in> ?S1. (s, n) \<in> (edges g)\<^sup>*" by (rule path1)
    show "\<forall>x \<in> ?B. (n, x) \<in> edges g" by (rule outs1)
    show "card (graphIds g - ?V1) \<le> fuel" by (rule fuel1)
  qed
  then obtain b V' S' where
    d: "dfsOutputs fuel g (?V1, ?S1) (getConnectedOutputs g n) = Some (b, V', S')"
    by (auto simp: dfsResult_def split: option.splits)
  show ?case
  proof (cases b)
    case True
    then have "\<not> acyclic (edges g)" using r unfolding d dfsResult_def by simp
    then show ?thesis using d True by (simp add: dfsResult_def)
  next
    case False
    have post: "?V1 \<subseteq> V' \<and> S' = ?S1 \<and> blackInv g V' S' \<and> ?B \<subseteq> V' - S'"
      using r False unfolding d dfsResult_def by auto
    then have v: "?V1 \<subseteq> V'" and s: "S' = ?S1" by blast+
    from post s have inv': "blackInv g V' ?S1" and outs: "?B \<subseteq> V' - ?S1" by blast+
    from inv' have VU': "V' \<subseteq> graphIds g"
      and closed': "\<forall>b \<in> V' - ?S1. \<forall>c. (b, c) \<in> edges g \<longrightarrow> c \<in> V' - ?S1"
      and nocyc': "\<forall>b \<in> V' - ?S1. (b, b) \<notin> (edges g)\<^sup>+"
      unfolding blackInv_def by blast+
    have res: "dfs (Suc fuel) g (V, S) n = Some (False, V', S)"
      using d False s nS by simp
    have black': "V' - S = insert n (V' - ?S1)" using v nS by auto
    have n_nocyc: "(n, n) \<notin> (edges g)\<^sup>+"
    proof
      assume "(n, n) \<in> (edges g)\<^sup>+"
      then obtain x where x: "(n, x) \<in> edges g" "(x, n) \<in> (edges g)\<^sup>*"
        by (meson tranclD)
      then have "x \<in> V' - ?S1" using outs by (auto simp: edges_def)
      from closed_rtrancl [OF x(2) this closed'] show False by simp
    qed
    have inv: "blackInv g V' S"
      unfolding blackInv_def black'
    proof (intro conjI ballI allI impI)
      show "S \<subseteq> V'" using SV v by auto
      show "V' \<subseteq> graphIds g" by (rule VU')
    next
      fix b c assume b: "b \<in> insert n (V' - ?S1)" and e: "(b, c) \<in> edges g"
      show "c \<in> insert n (V' - ?S1)"
      proof (cases "b = n")
        case True
        then show ?thesis using e outs by (auto simp: edges_def)
      next
        case False
        then show ?thesis using b e closed' by blast
      qed
    next
      fix b assume "b \<in> insert n (V' - ?S1)"
      then show "(b, b) \<notin> (edges g)\<^sup>+" using n_nocyc nocyc' by blast
    qed
    have "insert n V \<subseteq> V'" "{n} \<subseteq> V' - S" using v nS by auto
    then show ?thesis
      unfolding res dfsResult_def using inv by simp
  qed
qed

lemma hasCycleLoop_spec:
  "blackInv g V {} \<Longrightarrow> set ks \<subseteq> graphIds g \<Longrightarrow> card (graphIds g) \<le> fuel \<Longrightarrow>
   (\<exists>b. hasCycleLoop fuel g (V, {}) ks = Some b \<and>
     (if b then \<not> acyclic (edges g) else \<exists>V'. V \<union> set ks \<subseteq> V' \<and> blackInv g V' {}))"
proof (induction ks arbitrary: V)
  case Nil
  then show ?case by auto
next
  case (Cons k ks)
  show ?case
  proof (cases "k \<in> V")
    case True
    from Cons.IH [OF Cons.prems(1) _ Cons.prems(3)] Cons.prems(2)
    obtain b where b: "hasCycleLoop fuel g (V, {}) ks = Some b"
      "if b then \<not> acyclic (edges g) else \<exists>V'. V \<union> set ks \<subseteq> V' \<and> blackInv g V' {}"
      by auto
    show ?thesis using True b by (cases b) auto
  next
    case False
    have c: "card (graphIds g - V) \<le> fuel"
      using Cons.prems(3) finite_graphIds [of g]
      by (meson Diff_subset card_mono le_trans)
    have r: "dfsResult g (insert k V) {} {k} (dfs fuel g (V, {}) k)"
      using False Cons.prems(1,2) c by (intro dfs_spec) simp_all
    then obtain b V' S' where d: "dfs fuel g (V, {}) k = Some (b, V', S')"
      by (auto simp: dfsResult_def split: option.splits)
    show ?thesis
    proof (cases b)
      case True
      then have "\<not> acyclic (edges g)" using r unfolding d dfsResult_def by simp
      moreover have "hasCycleLoop fuel g (V, {}) (k # ks) = Some True"
        using False d True by simp
      ultimately show ?thesis by (intro exI [of _ True]) simp
    next
      case b: False
      have post: "insert k V \<subseteq> V' \<and> S' = {} \<and> blackInv g V' S'"
        using r b unfolding d dfsResult_def by auto
      then have inv: "blackInv g V' {}" and v: "insert k V \<subseteq> V'" by auto
      from Cons.IH [OF inv _ Cons.prems(3)] Cons.prems(2)
      obtain b' where b': "hasCycleLoop fuel g (V', {}) ks = Some b'"
        "if b' then \<not> acyclic (edges g) else \<exists>V''. V' \<union> set ks \<subseteq> V'' \<and> blackInv g V'' {}"
        by auto
      have eq: "hasCycleLoop fuel g (V, {}) (k # ks) = hasCycleLoop fuel g (V', {}) ks"
        using False d b post by simp
      show ?thesis
        unfolding eq using b' v by (cases b') auto
    qed
  qed
qed

lemma card_graphIds_le: "card (graphIds g) \<le> dfsFuel g"
proof -
  have "card (fst ` set g) \<le> length g"
    by (metis card_image_le card_length le_trans List.finite_set)
  moreover have "allOutputs g = set (concat (map (\<lambda>kn. outputs (snd kn)) g))"
    by (auto simp: allOutputs_def)
  then have "card (allOutputs g) \<le> length (concat (map (\<lambda>kn. outputs (snd kn)) g))"
    by (simp only: card_length)
  ultimately show ?thesis
    unfolding graphIds_def dfsFuel_def
    by (meson add_mono card_Un_le le_trans)
qed

lemma hasCycle_correct: "hasCycle g = Some (\<not> acyclic (edges g))"
proof -
  have inv0: "blackInv g {} {}" by (simp add: blackInv_def)
  have keys: "set (map fst g) \<subseteq> graphIds g" by (auto simp: graphIds_def)
  from hasCycleLoop_spec [OF inv0 keys card_graphIds_le]
  obtain b where b: "hasCycle g = Some b"
    "if b then \<not> acyclic (edges g) else \<exists>V'. {} \<union> set (map fst g) \<subseteq> V' \<and> blackInv g V' {}"
    unfolding hasCycle_def by blast
  show ?thesis
  proof (cases b)
    case True
    then show ?thesis using b by simp
  next
    case False
    then obtain V' where V': "fst ` set g \<subseteq> V'" "blackInv g V' {}" using b by auto
    have "(x, x) \<notin> (edges g)\<^sup>+" for x
    proof
      assume c: "(x, x) \<in> (edges g)\<^sup>+"
      then obtain y where "(x, y) \<in> edges g" by (meson tranclD)
      then have "getConnectedOutputs g x \<noteq> []" by (auto simp: edges_def)
      then have "x \<in> fst ` set g"
        by (auto simp: getConnectedOutputs_def split: option.splits dest!: map_of_SomeD)
           (force)
      then have "x \<in> V' - {}" using V'(1) by auto
      then show False using V'(2) c by (auto simp: blackInv_def)
    qed
    then have "acyclic (edges g)" by (simp add: acyclic_def)
    then show ?thesis using b False by simp
  qed
qed

section \<open>The graph of a layout is consistent\<close>

lemma map_of_map_set: "map_of (map_set m k v) = (map_of m)(k \<mapsto> v)"
  by (induction m k v rule: map_set.induct) auto

lemma keys_map_set: "fst ` set (map_set m k v) = insert k (fst ` set m)"
  by (induction m k v rule: map_set.induct) auto

lemma map_fst_map_set:
  "map fst (map_set m k v) = (if k \<in> fst ` set m then map fst m else map fst m @ [k])"
  by (induction m k v rule: map_set.induct) (auto simp: image_iff)

lemma distinct_map_set: "distinct (map fst m) \<Longrightarrow> distinct (map fst (map_set m k v))"
  by (simp add: map_fst_map_set)

lemma map_of_key: "map_of m k = Some v \<Longrightarrow> k \<in> fst ` set m"
  by (force dest: map_of_SomeD)

lemma initNodes_empty:
  assumes "distinct (map fst g)"
    "\<forall>x. getConnectedOutputs g x = [] \<and> getConnectedInputs g x = []"
  shows "distinct (map fst (initNodes g i ds)) \<and>
         (\<forall>x. getConnectedOutputs (initNodes g i ds) x = [] \<and>
              getConnectedInputs (initNodes g i ds) x = [])"
  using assms
proof (induction g i ds rule: initNodes.induct)
  case (1 g i)
  then show ?case by simp
next
  case (2 g i d ds)
  let ?g1 = "map_set g (dev_id d)
        \<lparr>node_deviceId = dev_id d, device_ref = i, inputs = [], outputs = []\<rparr>"
  have "distinct (map fst ?g1)" using "2.prems"(1) by (rule distinct_map_set)
  moreover have "\<forall>x. getConnectedOutputs ?g1 x = [] \<and> getConnectedInputs ?g1 x = []"
    using "2.prems"(2)
    by (simp add: getConnectedOutputs_def getConnectedInputs_def map_of_map_set)
  ultimately show ?case using "2.IH" by simp
qed

lemma addOutput_keys: "map fst (addOutput g a b) = map fst g"
  by (auto simp: addOutput_def map_fst_map_set split: option.splits dest: map_of_key)

lemma addInput_keys: "map fst (addInput g b a) = map fst g"
  by (auto simp: addInput_def map_fst_map_set split: option.splits dest: map_of_key)

lemma addOutput_inputs: "getConnectedInputs (addOutput g a b) x = getConnectedInputs g x"
  by (auto simp: addOutput_def getConnectedInputs_def map_of_map_set split: option.splits)

lemma addInput_outputs: "getConnectedOutputs (addInput g b a) x = getConnectedOutputs g x"
  by (auto simp: addInput_def getConnectedOutputs_def map_of_map_set split: option.splits)

lemma addOutput_outputs:
  "getConnectedOutputs (addOutput g a b) x =
     (if x = a \<and> a \<in> fst ` set g \<and> b \<notin> set (getConnectedOutputs g a)
      then getConnectedOutputs g a @ [b] else getConnectedOutputs g x)"
proof (cases "map_of g a")
  case None
  then have "a \<notin> fst ` set g" by (simp add: map_of_eq_None_iff)
  then show ?thesis using None by (simp add: addOutput_def)
next
  case (Some n)
  then have "a \<in> fst ` set g" by (rule map_of_key)
  then show ?thesis
    using Some by (simp add: addOutput_def getConnectedOutputs_def map_of_map_set)
qed

lemma addInput_inputs:
  "getConnectedInputs (addInput g b a) x =
     (if x = b \<and> b \<in> fst ` set g \<and> a \<notin> set (getConnectedInputs g b)
      then getConnectedInputs g b @ [a] else getConnectedInputs g x)"
proof (cases "map_of g b")
  case None
  then have "b \<notin> fst ` set g" by (simp add: map_of_eq_None_iff)
  then show ?thesis using None by (simp add: addInput_def)
next
  case (Some n)
  then have "b \<in> fst ` set g" by (rule map_of_key)
  then show ?thesis
    using Some by (simp add: addInput_def getConnectedInputs_def map_of_map_set)
qed

lemma addConnection_consistent:
  assumes "graphConsistent g"
  shows "graphConsistent (addConnection g c)"
proof (cases "map_of g (fromDeviceId c) \<noteq> None \<and> map_of g (toDeviceId c) \<noteq> None")
  case False
  then show ?thesis using assms by (auto simp: addConnection_def)
next
  case True
  let ?a = "fromDeviceId c" and ?b = "toDeviceId c"
  let ?g1 = "addOutput g ?a ?b"
  let ?g2 = "addInput ?g1 ?b ?a"
  have ka: "?a \<in> fst ` set g" and kb: "?b \<in> fst ` set g"
    using True by (auto dest: map_of_key)
  have eq: "addConnection g c = ?g2" using True by (simp add: addConnection_def)
  have keys: "map fst ?g2 = map fst g" by (simp add: addInput_keys addOutput_keys)
  have kb1: "?b \<in> fst ` set ?g1"
    using kb addOutput_keys [of g ?a ?b] by (metis list.set_map)
  from assms have d: "distinct (map fst g)"
    and sub: "\<And>x. set (getConnectedOutputs g x) \<subseteq> fst ` set g"
    and dout: "\<And>x. distinct (getConnectedOutputs g x)"
    and din: "\<And>x. distinct (getConnectedInputs g x)"
    and con: "\<And>x y. y \<in> set (getConnectedOutputs g x) \<longleftrightarrow> x \<in> set (getConnectedInputs g y)"
    unfolding graphConsistent_def by blast+
  have outs: "getConnectedOutputs ?g2 x =
      (if x = ?a \<and> ?b \<notin> set (getConnectedOutputs g ?a)
       then getConnectedOutputs g ?a @ [?b] else getConnectedOutputs g x)" for x
    using ka by (simp add: addInput_outputs addOutput_outputs)
  have ins: "getConnectedInputs ?g2 y =
      (if y = ?b \<and> ?a \<notin> set (getConnectedInputs g ?b)
       then getConnectedInputs g ?b @ [?a] else getConnectedInputs g y)" for y
    using kb1 by (simp add: addInput_inputs addOutput_inputs)
  have kset: "fst ` set ?g2 = fst ` set g"
    using keys by (metis list.set_map)
  have 1: "distinct (map fst ?g2)" using d keys by simp
  have 2: "set (getConnectedOutputs ?g2 x) \<subseteq> fst ` set ?g2" for x
    unfolding kset using sub [of x] sub [of ?a] kb by (auto simp: outs)
  have 3: "distinct (getConnectedOutputs ?g2 x)" for x
    using dout [of x] dout [of ?a] by (simp add: outs)
  have 4: "distinct (getConnectedInputs ?g2 y)" for y
    using din [of y] din [of ?b] by (simp add: ins)
  have 5: "y \<in> set (getConnectedOutputs ?g2 x) \<longleftrightarrow> x \<in> set (getConnectedInputs ?g2 y)" for x y
    using con [of y x] con [of ?b ?a] by (auto simp: outs ins)
  show ?thesis
    unfolding eq graphConsistent_def using 1 2 3 4 5 by blast
qed

lemma buildConnectivityGraph_consistent: "graphConsistent (buildConnectivityGraph l)"
proof -
  have "distinct (map fst (initNodes [] 0 (devices l))) \<and>
         (\<forall>x. getConnectedOutputs (initNodes [] 0 (devices l)) x = [] \<and>
              getConnectedInputs (initNodes [] 0 (devices l)) x = [])"
    by (rule initNodes_empty) (simp_all add: getConnectedOutputs_def getConnectedInputs_def)
  then have init: "graphConsistent (initNodes [] 0 (devices l))"
    by (simp add: graphConsistent_def)
  have "graphConsistent g \<Longrightarrow> graphConsistent (foldl addConnection g cs)" for g cs
    by (induction cs arbitrary: g) (simp_all add: addConnection_consistent)
  from this [OF init] show ?thesis by (simp add: buildConnectivityGraph_def)
qed

section \<open>Topological sorting by in-degree\<close>

lemma relax_distinct:
  "distinct os \<Longrightarrow>
   relax os (inDegree, queue) =
     ((\<lambda>k. if k \<in> set os then Some (decremented inDegree k) else inDegree k),
      queue @ filter (\<lambda>k. decremented inDegree k = 0) os)"
proof (induction os arbitrary: inDegree queue)
  case Nil
  then show ?case by simp
next
  case (Cons x os)
  let ?d1 = "inDegree(x \<mapsto> decremented inDegree x)"
  let ?q1 = "if decremented inDegree x = 0 then queue @ [x] else queue"
  have xo: "x \<notin> set os" and dos: "distinct os" using Cons.prems by simp_all
  have same: "decremented ?d1 k = decremented inDegree k" if "k \<in> set os" for k
    using that xo by (auto simp: decremented_def)
  have f: "filter (\<lambda>k. decremented ?d1 k = 0) os = filter (\<lambda>k. decremented inDegree k = 0) os"
    using same by (intro filter_cong) simp_all
  have m: "(\<lambda>k. if k \<in> set os then Some (decremented ?d1 k) else ?d1 k)
      = (\<lambda>k. if k \<in> set (x # os) then Some (decremented inDegree k) else inDegree k)"
    using same by (intro ext) auto
  have "relax (x # os) (inDegree, queue) = relax os (?d1, ?q1)"
    by (simp add: decremented_def Let_def)
  also have "\<dots> = ((\<lambda>k. if k \<in> set os then Some (decremented ?d1 k) else ?d1 k),
      ?q1 @ filter (\<lambda>k. decremented ?d1 k = 0) os)"
    using dos by (rule Cons.IH)
  also have "\<dots> = ((\<lambda>k. if k \<in> set (x # os) then Some (decremented inDegree k) else inDegree k),
      queue @ filter (\<lambda>k. decremented inDegree k = 0) (x # os))"
    unfolding m f by simp
  finally show ?case .
qed

lemma kahn_inv_step:
  assumes con: "graphConsistent g"
    and inv: "kahn_inv g inDegree (c # queue) result"
    and rel: "relax (getConnectedOutputs g c) (inDegree, queue) = (inDegree', queue')"
  shows "kahn_inv g inDegree' queue' (result @ [c])"
proof -
  let ?K = "fst ` set g"
  let ?outs = "getConnectedOutputs g"
  let ?ins = "getConnectedInputs g"
  let ?pend = "\<lambda>r k. set (?ins k) - set r"
  from con have sub: "\<And>x. set (?outs x) \<subseteq> ?K" and dout: "\<And>x. distinct (?outs x)"
    and edge: "\<And>x y. y \<in> set (?outs x) \<longleftrightarrow> x \<in> set (?ins y)"
    unfolding graphConsistent_def by blast+
  from inv have dist: "distinct (result @ c # queue)"
    and inK: "set (result @ c # queue) \<subseteq> ?K"
    and deg: "\<And>k. k \<in> ?K \<Longrightarrow> inDegree k = Some (int (card (?pend result k)))"
    and qu: "\<And>k. k \<in> ?K \<Longrightarrow> k \<in> set (c # queue) \<longleftrightarrow> k \<notin> set result \<and> inDegree k = Some 0"
    and topo: "\<And>i. i < length result \<Longrightarrow> set (?ins (result ! i)) \<subseteq> set (take i result)"
    unfolding kahn_inv_def by blast+
  have cK: "c \<in> ?K" and cr: "c \<notin> set result" and cq: "c \<notin> set queue"
    using dist inK by auto
  have c0: "inDegree c = Some 0" using qu [OF cK] by simp
  have fin: "finite (?pend result k)" for k by simp
  have cin: "set (?ins c) \<subseteq> set result"
    using deg [OF cK] c0 fin [of c] by auto
  have res_in: "set (?ins k) \<subseteq> set result" if "k \<in> set result" for k
  proof -
    from that obtain i where "i < length result" "result ! i = k"
      by (auto simp: in_set_conv_nth)
    then show ?thesis using topo [of i] by (auto dest: in_set_takeD)
  qed
  define os where "os = ?outs c"
  have osK: "set os \<subseteq> ?K" and dos: "distinct os" using sub dout by (simp_all add: os_def)
  have os_iff: "k \<in> set os \<longleftrightarrow> c \<in> set (?ins k)" for k using edge by (simp add: os_def)
  have r: "inDegree' = (\<lambda>k. if k \<in> set os then Some (decremented inDegree k) else inDegree k)"
    "queue' = queue @ filter (\<lambda>k. decremented inDegree k = 0) os"
    using rel relax_distinct [OF dos, of inDegree queue] by (simp_all add: os_def)
  have pend_c: "?pend (result @ [c]) k = ?pend result k - {c}" for k by auto
  have dec: "decremented inDegree k = int (card (?pend (result @ [c]) k))"
    and pos: "0 < card (?pend result k)"
    and knr: "k \<notin> set result" and knc: "k \<noteq> c" and knq: "k \<notin> set queue"
    if "k \<in> set os" for k
  proof -
    have kK: "k \<in> ?K" using that osK by auto
    have cp: "c \<in> ?pend result k" using that os_iff cr by simp
    then show pos: "0 < card (?pend result k)" using fin [of k] by (auto simp: card_gt_0_iff)
    have "card (?pend (result @ [c]) k) = card (?pend result k) - 1"
      unfolding pend_c using cp by simp
    then show "decremented inDegree k = int (card (?pend (result @ [c]) k))"
      using deg [OF kK] pos by (simp add: decremented_def)
    show knr: "k \<notin> set result" using res_in [of k] cp by auto
    have "inDegree k \<noteq> Some 0"
    proof
      assume "inDegree k = Some 0"
      with deg [OF kK] have "int (card (?pend result k)) = 0" by (simp only: option.inject)
      then have "card (?pend result k) = 0" by (simp only: of_nat_eq_0_iff)
      with pos show False by linarith
    qed
    then have "k \<notin> set (c # queue)" using qu [OF kK] by simp
    then show "k \<noteq> c" "k \<notin> set queue" by simp_all
  qed
  have same: "?pend (result @ [c]) k = ?pend result k" if "k \<notin> set os" for k
    using that os_iff by auto
  have 1: "distinct ((result @ [c]) @ queue')"
    unfolding r using dist dos knr knc knq by auto
  have 2: "set ((result @ [c]) @ queue') \<subseteq> ?K"
    unfolding r using inK osK by auto
  have 3: "inDegree' k = Some (int (card (?pend (result @ [c]) k)))" if "k \<in> ?K" for k
  proof (cases "k \<in> set os")
    case True
    then show ?thesis using dec by (simp add: r)
  next
    case False
    then show ?thesis using deg [OF that] same by (simp add: r)
  qed
  have 4: "k \<in> set queue' \<longleftrightarrow> k \<notin> set (result @ [c]) \<and> inDegree' k = Some 0" if "k \<in> ?K" for k
  proof (cases "k \<in> set os")
    case True
    then show ?thesis using knr knc knq by (auto simp: r)
  next
    case False
    then show ?thesis using qu [OF that] cq by (auto simp: r)
  qed
  have 5: "set (?ins ((result @ [c]) ! i)) \<subseteq> set (take i (result @ [c]))"
    if "i < length (result @ [c])" for i
  proof (cases "i < length result")
    case True
    then show ?thesis using topo [of i] by (simp add: nth_append)
  next
    case False
    then have "i = length result" using that by simp
    then show ?thesis using cin by simp
  qed
  show ?thesis
    unfolding kahn_inv_def using 1 2 3 4 5 by blast
qed

lemma kahnLoop_inv:
  "graphConsistent g \<Longrightarrow> kahn_inv g inDegree queue result \<Longrightarrow>
   \<exists>inDegree'. kahn_inv g inDegree' [] (kahnLoop g inDegree queue result)"
proof (induction g inDegree queue result rule: kahnLoop.induct)
  case (1 g inDegree result)
  then show ?case by auto
next
  case (2 g inDegree current queue result)
  obtain inDegree' queue' where
    r: "relax (getConnectedOutputs g current) (inDegree, queue) = (inDegree', queue')"
    by (cases "relax (getConnectedOutputs g current) (inDegree, queue)")
  have "kahn_inv g inDegree' queue' (result @ [current])"
    using "2.prems" r by (rule kahn_inv_step)
  from "2.IH" [OF r [symmetric] "2.prems"(1) this] show ?case using r by simp
qed

lemma initialDegrees_eq:
  "initialDegrees g k =
     (if k \<in> fst ` set g then Some (int (length (getConnectedInputs g k))) else None)"
proof -
  have "foldl (\<lambda>m nodeId. m(nodeId \<mapsto> int (length (getConnectedInputs g nodeId)))) m0 ks k =
     (if k \<in> set ks then Some (int (length (getConnectedInputs g k))) else m0 k)" for m0 ks
    by (induction ks arbitrary: m0) auto
  then show ?thesis by (simp add: initialDegrees_def)
qed

lemma kahn_inv_initial:
  assumes "graphConsistent g"
  shows "kahn_inv g (initialDegrees g)
           (filter (\<lambda>nodeId. initialDegrees g nodeId = Some 0) (map fst g)) []"
proof -
  from assms have d: "distinct (map fst g)" and din: "\<And>x. distinct (getConnectedInputs g x)"
    unfolding graphConsistent_def by blast+
  have "int (length (getConnectedInputs g k)) = int (card (set (getConnectedInputs g k)))" for k
    using din [of k] by (simp add: distinct_card)
  then show ?thesis
    unfolding kahn_inv_def using d by (auto simp: initialDegrees_eq)
qed

lemma kahn_final:
  assumes con: "graphConsistent g"
  obtains inDegree where
    "kahn_inv g inDegree [] (kahnLoop g (initialDegrees g)
        (filter (\<lambda>nodeId. initialDegrees g nodeId = Some 0) (map fst g)) [])"
  using kahnLoop_inv [OF con kahn_inv_initial [OF con]] by blast

lemma edge_source_key: "(a, b) \<in> edges g \<Longrightarrow> a \<in> fst ` set g"
proof (cases "map_of g a")
  case None
  assume "(a, b) \<in> edges g"
  then show ?thesis using None by (simp add: edges_def getConnectedOutputs_def)
next
  case (Some n)
  then show ?thesis by (rule map_of_key)
qed

lemma finite_edges: "graphConsistent g \<Longrightarrow> finite (edges g)"
proof -
  assume con: "graphConsistent g"
  then have sub: "\<And>x. set (getConnectedOutputs g x) \<subseteq> fst ` set g"
    unfolding graphConsistent_def by blast
  have "edges g \<subseteq> fst ` set g \<times> fst ` set g"
  proof
    fix e assume e: "e \<in> edges g"
    obtain a b where ab: "e = (a, b)" by (cases e)
    have "a \<in> fst ` set g" using e unfolding ab by (rule edge_source_key)
    moreover have "b \<in> fst ` set g" using e sub [of a] unfolding ab edges_def by auto
    ultimately show "e \<in> fst ` set g \<times> fst ` set g" unfolding ab by simp
  qed
  then show ?thesis by (rule finite_subset) simp
qed

lemma kahn_complete_topological:
  assumes con: "graphConsistent g"
    and inv: "kahn_inv g inDegree [] R"
    and len: "length R = length g"
  shows "set R = fst ` set g \<and> distinct R \<and>
         (\<forall>a b. b \<in> set (getConnectedOutputs g a) \<longrightarrow>
            (\<exists>i j. i < j \<and> j < length R \<and> R ! i = a \<and> R ! j = b))"
proof -
  from con have d: "distinct (map fst g)"
    and sub: "\<And>x. set (getConnectedOutputs g x) \<subseteq> fst ` set g"
    and edge: "\<And>x y. y \<in> set (getConnectedOutputs g x) \<longleftrightarrow> x \<in> set (getConnectedInputs g y)"
    unfolding graphConsistent_def by blast+
  from inv have dR: "distinct R" and RK: "set R \<subseteq> fst ` set g"
    and topo: "\<And>i. i < length R \<Longrightarrow> set (getConnectedInputs g (R ! i)) \<subseteq> set (take i R)"
    unfolding kahn_inv_def by auto
  have "card (fst ` set g) = length g"
    using d by (metis distinct_card length_map list.set_map)
  moreover have "card (set R) = length R" using dR by (rule distinct_card)
  ultimately have "card (set R) = card (fst ` set g)" using len by simp
  with RK have all: "set R = fst ` set g" by (intro card_subset_eq) simp_all
  have "\<exists>i j. i < j \<and> j < length R \<and> R ! i = a \<and> R ! j = b"
    if "b \<in> set (getConnectedOutputs g a)" for a b
  proof -
    have "b \<in> set R" using that sub all by auto
    then obtain j where j: "j < length R" "R ! j = b" by (auto simp: in_set_conv_nth)
    have "a \<in> set (take j R)" using that edge topo [OF j(1)] j(2) by auto
    then obtain i where "i < length (take j R)" "take j R ! i = a"
      by (auto simp: in_set_conv_nth)
    then have "i < j" "R ! i = a" using j(1) by simp_all
    then show ?thesis using j by blast
  qed
  then show ?thesis using all dR by blast
qed

lemma topological_acyclic:
  assumes dR: "distinct R"
    and ord: "\<And>a b. (a, b) \<in> E \<Longrightarrow> \<exists>i j. i < j \<and> j < length R \<and> R ! i = a \<and> R ! j = b"
  shows "acyclic E"
proof -
  define f where "f x = (THE i. i < length R \<and> R ! i = x)" for x
  have f: "f (R ! i) = i" if "i < length R" for i
    unfolding f_def using that dR by (intro the_equality) (auto simp: nth_eq_iff_index_eq)
  have "f b < f a" if "(a, b) \<in> E\<inverse>" for a b
  proof -
    from that have "(b, a) \<in> E" by simp
    from ord [OF this] obtain i j where "i < j" "j < length R" "R ! i = b" "R ! j = a" by blast
    then show ?thesis using f [of i] f [of j] by simp
  qed
  then have "acyclic (E\<inverse>)" by (rule acyclicI_order)
  then show ?thesis by simp
qed

lemma kahn_inv_emptyD:
  assumes "kahn_inv g inDegree [] R"
  shows "distinct R" "set R \<subseteq> fst ` set g"
    "k \<in> fst ` set g \<Longrightarrow> inDegree k = Some (int (card (set (getConnectedInputs g k) - set R)))"
    "k \<in> fst ` set g \<Longrightarrow> k \<notin> set R \<Longrightarrow> inDegree k \<noteq> Some 0"
proof -
  from assms have a: "distinct (R @ [])" "set (R @ []) \<subseteq> fst ` set g"
    and b: "\<forall>k \<in> fst ` set g.
         inDegree k = Some (int (card (set (getConnectedInputs g k) - set R)))"
    and c: "\<forall>k \<in> fst ` set g. k \<in> set [] \<longleftrightarrow> k \<notin> set R \<and> inDegree k = Some 0"
    unfolding kahn_inv_def by blast+
  from a show "distinct R" "set R \<subseteq> fst ` set g" by simp_all
  from b show "k \<in> fst ` set g \<Longrightarrow>
      inDegree k = Some (int (card (set (getConnectedInputs g k) - set R)))" by blast
  show "k \<in> fst ` set g \<Longrightarrow> k \<notin> set R \<Longrightarrow> inDegree k \<noteq> Some 0"
  proof
    assume "k \<in> fst ` set g" "k \<notin> set R" "inDegree k = Some 0"
    with c have "k \<in> set []" by blast
    then show False by simp
  qed
qed

lemma kahn_incomplete_cyclic:
  assumes con: "graphConsistent g"
    and inv: "kahn_inv g inDegree [] R"
    and len: "length R \<noteq> length g"
  shows "\<not> acyclic (edges g)"
proof
  assume ac: "acyclic (edges g)"
  from con have d: "distinct (map fst g)"
    and edge: "\<And>x y. y \<in> set (getConnectedOutputs g x) \<longleftrightarrow> x \<in> set (getConnectedInputs g y)"
    unfolding graphConsistent_def by blast+
  note dR = kahn_inv_emptyD(1) [OF inv] and RK = kahn_inv_emptyD(2) [OF inv]
    and deg = kahn_inv_emptyD(3) [OF inv] and qu = kahn_inv_emptyD(4) [OF inv]
  have "card (fst ` set g) = length g"
    using d by (metis distinct_card length_map list.set_map)
  moreover have "card (set R) = length R" using dR by (rule distinct_card)
  ultimately have "set R \<noteq> fst ` set g" using len by auto
  then obtain x where x: "x \<in> fst ` set g - set R" using RK by auto
  have wf: "wf (edges g)" using finite_edges [OF con] ac by (rule finite_acyclic_wf)
  have "\<exists>z \<in> fst ` set g - set R. \<forall>y. (y, z) \<in> edges g \<longrightarrow> y \<notin> fst ` set g - set R"
    using wf x unfolding wf_eq_minimal by (elim allE [of _ "fst ` set g - set R"] allE [of _ x]) simp
  then obtain z where z: "z \<in> fst ` set g - set R"
    "\<And>y. (y, z) \<in> edges g \<Longrightarrow> y \<notin> fst ` set g - set R"
    by blast
  have zK: "z \<in> fst ` set g" and zR: "z \<notin> set R" using z(1) by simp_all
  have nz: "inDegree z \<noteq> Some 0" using zK zR by (rule qu)
  have "set (getConnectedInputs g z) - set R \<noteq> {}"
  proof
    assume "set (getConnectedInputs g z) - set R = {}"
    then have "inDegree z = Some 0" using deg [OF zK] by (simp only: card.empty of_nat_0)
    with nz show False by simp
  qed
  then obtain y where y: "y \<in> set (getConnectedInputs g z)" "y \<notin> set R" by blast
  then have e: "(y, z) \<in> edges g" using edge by (simp add: edges_def)
  then have "y \<in> fst ` set g" by (rule edge_source_key)
  then show False using z(2) [OF e] y(2) by simp
qed

lemma topologicalSort_None_iff:
  assumes con: "graphConsistent g"
  shows "topologicalSort g = None \<longleftrightarrow> \<not> acyclic (edges g)"
proof -
  let ?R = "kahnLoop g (initialDegrees g)
        (filter (\<lambda>nodeId. initialDegrees g nodeId = Some 0) (map fst g)) []"
  obtain inDegree where inv: "kahn_inv g inDegree [] ?R" using kahn_final [OF con] .
  show ?thesis
  proof (cases "length ?R = length g")
    case True
    from kahn_complete_topological [OF con inv True]
    have dR: "distinct ?R"
      and ord: "\<And>a b. (a, b) \<in> edges g \<Longrightarrow>
          \<exists>i j. i < j \<and> j < length ?R \<and> ?R ! i = a \<and> ?R ! j = b"
      by (auto simp: edges_def)
    have "acyclic (edges g)" using dR ord by (rule topological_acyclic)
    then show ?thesis using True by (simp add: topologicalSort_def Let_def)
  next
    case False
    from kahn_incomplete_cyclic [OF con inv False]
    show ?thesis using False by (simp add: topologicalSort_def Let_def)
  qed
qed

lemma topologicalSort_Some:
  assumes con: "graphConsistent g" and s: "topologicalSort g = Some order"
  shows "set order = fst ` set g \<and> distinct order \<and>
         (\<forall>a b. b \<in> set (getConnectedOutputs g a) \<longrightarrow>
            (\<exists>i j. i < j \<and> j < length order \<and> order ! i = a \<and> order ! j = b))"
proof -
  let ?R = "kahnLoop g (initialDegrees g)
        (filter (\<lambda>nodeId. initialDegrees g nodeId = Some 0) (map fst g)) []"
  obtain inDegree where inv: "kahn_inv g inDegree [] ?R" using kahn_final [OF con] .
  from s have len: "length ?R = length g" and o: "order = ?R"
    by (auto simp: topologicalSort_def Let_def split: if_splits)
  from kahn_complete_topological [OF con inv len] show ?thesis unfolding o .
qed

section \<open>Claim about topologicalSort and hasCycle\<close>

lemma graph_cycleLayout:
  "buildConnectivityGraph cycleLayout =
     [(''A'', \<lparr>node_deviceId = ''A'', device_ref = 0, inputs = [''B''], outputs = [''B'']\<rparr>),
      (''B'', \<lparr>node_deviceId = ''B'', device_ref = 1, inputs = [''A''], outputs = [''A'']\<rparr>)]"
  by (simp add: buildConnectivityGraph_def cycleLayout_def addConnection_def
      addOutput_def addInput_def)

text \<open>
  C4: for the connectivity graph of every layout, \<open>topologicalSort\<close> returns null exactly
  when \<open>hasCycle\<close> returns true (and \<open>hasCycle\<close> does return); an ordering it returns
  holds every node of the graph once, and every edge goes from an earlier node of the
  ordering to a later one.
\<close>

theorem topologicalSort_null_iff_hasCycle:
  "(topologicalSort (buildConnectivityGraph l) = None \<longleftrightarrow>
      hasCycle (buildConnectivityGraph l) = Some True) \<and>
   hasCycle (buildConnectivityGraph l) \<noteq> None \<and>
   (\<forall>order. topologicalSort (buildConnectivityGraph l) = Some order \<longrightarrow>
      set order = fst ` set (buildConnectivityGraph l) \<and> distinct order \<and>
      (\<forall>a b. b \<in> set (getConnectedOutputs (buildConnectivityGraph l) a) \<longrightarrow>
         (\<exists>i j. i < j \<and> j < length order \<and> order ! i = a \<and> order ! j = b)))"
proof -
  let ?g = "buildConnectivityGraph l"
  have con: "graphConsistent ?g" by (rule buildConnectivityGraph_consistent)
  have h: "hasCycle ?g = Some (\<not> acyclic (edges ?g))" by (rule hasCycle_correct)
  have t: "topologicalSort ?g = None \<longleftrightarrow> \<not> acyclic (edges ?g)"
    using con by (rule topologicalSort_None_iff)
  have 1: "topologicalSort ?g = None \<longleftrightarrow> hasCycle ?g = Some True"
    unfolding t h by simp
  have 2: "hasCycle ?g \<noteq> None" unfolding h by simp
  have 3: "set order = fst ` set ?g \<and> distinct order \<and>
      (\<forall>a b. b \<in> set (getConnectedOutputs ?g a) \<longrightarrow>
         (\<exists>i j. i < j \<and> j < length order \<and> order ! i = a \<and> order ! j = b))"
    if "topologicalSort ?g = Some order" for order
    using con that by (rule topologicalSort_Some)
  show ?thesis using 1 2 3 by blast
qed

theorem topologicalSort_null_iff_hasCycle_witness:
  "topologicalSort (buildConnectivityGraph createTestLayout)
     = Some [''source-1'', ''conveyor-1'', ''sink-1''] \<and>
   hasCycle (buildConnectivityGraph createTestLayout) = Some False \<and>
   set [''source-1'', ''conveyor-1'', ''sink-1'']
     = fst ` set (buildConnectivityGraph createTestLayout) \<and>
   ''sink-1'' \<in> set (getConnectedOutputs (buildConnectivityGraph createTestLayout) ''conveyor-1'') \<and>
   topologicalSort (buildConnectivityGraph cycleLayout) = None \<and>
   hasCycle (buildConnectivityGraph cycleLayout) = Some True"
proof -
  let ?g = "buildConnectivityGraph createTestLayout"
  let ?c = "buildConnectivityGraph cycleLayout"
  have a: "topologicalSort ?g = Some [''source-1'', ''conveyor-1'', ''sink-1'']"
    by (simp add: graph_createTestLayout conveyorNode_def topologicalSort_def
        initialDegrees_def getConnectedInputs_def getConnectedOutputs_def Let_def)
  have b: "topologicalSort ?c = None"
    by (simp add: graph_cycleLayout topologicalSort_def
        initialDegrees_def getConnectedInputs_def getConnectedOutputs_def Let_def)
  have e: "''sink-1'' \<in> set (getConnectedOutputs ?g ''conveyor-1'')"
    by (simp add: graph_createTestLayout conveyorNode_def getConnectedOutputs_def)
  note t1 = topologicalSort_null_iff_hasCycle [of createTestLayout]
  note t2 = topologicalSort_null_iff_hasCycle [of cycleLayout]
  have c: "hasCycle ?c = Some True" using t2 b by blast
  have "hasCycle ?g \<noteq> Some True" using t1 a by simp
  moreover have "hasCycle ?g \<noteq> None" using t1 by blast
  ultimately have d: "hasCycle ?g = Some False" by (cases "hasCycle ?g") auto
  have s: "set [''source-1'', ''conveyor-1'', ''sink-1''] = fst ` set ?g"
    using t1 a by blast
  show ?thesis using a b c d e s by blast
qed

end
